theory Spec2Isabelle
  imports Main "HOL-Library.Sublist"
begin

section \<open>Text and the character tables of the interpreter\<close>

text \<open>
  A Python \<open>str\<close> is a sequence of Unicode code points, so text is a list of
  integers (what \<open>ord\<close> gives); \<open>ustr\<close> writes an ASCII literal as such a list.
\<close>

type_synonym codepoint = int
type_synonym pystr = "codepoint list"

definition ustr :: "string \<Rightarrow> pystr" where
  "ustr s = map of_char s"

text \<open>
  The regular expressions and string methods used by \<open>guardrails.py\<close> consult the
  interpreter's Unicode tables, which are not part of the repository. They are a
  parameter of the model:
  \<^item> \<open>u_decimal\<close>: the class \<open>\d\<close> (decimal digits),
  \<^item> \<open>u_alnum\<close>: alphanumeric characters; with the underscore they form \<open>\w\<close>,
    on which \<open>\b\<close> is built,
  \<^item> \<open>u_space\<close>: the class \<open>\s\<close>, also what \<open>str.strip()\<close> removes,
  \<^item> \<open>u_tolower\<close>: the one-code-point lower-case mapping of the matcher under
    \<open>re.IGNORECASE\<close>,
  \<^item> \<open>u_lower_full\<close>: the full lower-case mapping of \<open>str.lower()\<close>, which can
    give several code points for one,
  \<^item> \<open>u_final_sigma\<close>: whether a capital sigma stands at the end of a word, given
    the text before and after it; \<open>str.lower()\<close> asks this at every capital sigma.
\<close>

datatype unicode_db = UnicodeDB
  (u_decimal: "codepoint \<Rightarrow> bool")
  (u_alnum: "codepoint \<Rightarrow> bool")
  (u_space: "codepoint \<Rightarrow> bool")
  (u_tolower: "codepoint \<Rightarrow> codepoint")
  (u_lower_full: "codepoint \<Rightarrow> pystr")
  (u_final_sigma: "pystr \<Rightarrow> pystr \<Rightarrow> bool")

definition ascii_upper :: "codepoint \<Rightarrow> bool" where
  "ascii_upper c = (65 \<le> c \<and> c \<le> 90)"

definition ascii_lower :: "codepoint \<Rightarrow> bool" where
  "ascii_lower c = (97 \<le> c \<and> c \<le> 122)"

definition ascii_tolower :: "codepoint \<Rightarrow> codepoint" where
  "ascii_tolower c = (if ascii_upper c then c + 32 else c)"

text \<open>
  The tables restricted to ASCII: every interpreter agrees with them on ASCII text.
  White space is the ASCII part of \<open>str.isspace\<close>: tab to carriage return, the four
  separators 28 to 31, and the space.
\<close>

definition ascii_space :: "codepoint \<Rightarrow> bool" where
  "ascii_space c = ((9 \<le> c \<and> c \<le> 13) \<or> (28 \<le> c \<and> c \<le> 32))"

definition ascii_db :: unicode_db where
  "ascii_db = UnicodeDB
     (\<lambda>c. 48 \<le> c \<and> c \<le> 57)
     (\<lambda>c. (48 \<le> c \<and> c \<le> 57) \<or> ascii_upper c \<or> ascii_lower c)
     ascii_space
     ascii_tolower
     (\<lambda>c. [ascii_tolower c])
     (\<lambda>left right. False)"

section \<open>The regular expressions of the \<open>re\<close> module\<close>

text \<open>
  The parsed form of a pattern, with the operators the patterns of \<open>guardrails.py\<close>
  use: literals (plain, or compiled under \<open>IGNORECASE\<close> and then kept in lower
  case), sets of characters and categories, the assertion \<open>\b\<close>, sequence,
  alternation and the greedy repetition \<open>{lo,hi}\<close> (\<open>hi = None\<close> is unbounded).
\<close>

datatype item = Chr codepoint | Category_Digit | Category_Space

datatype rx =
    Empty
  | Literal codepoint
  | Literal_Ignore codepoint
  | In "item list"
  | At_Boundary
  | Seq rx rx
  | Branch rx rx
  | Max_Repeat nat "nat option" rx

fun seq :: "rx list \<Rightarrow> rx" where
  "seq [] = Empty"
| "seq [r] = r"
| "seq (r # rs) = Seq r (seq rs)"

fun branch :: "rx list \<Rightarrow> rx" where
  "branch [] = Empty"
| "branch [r] = r"
| "branch (r # rs) = Branch r (branch rs)"

definition rep_opt :: "rx \<Rightarrow> rx" where
  "rep_opt r = Max_Repeat 0 (Some 1) r"

definition rep_star :: "rx \<Rightarrow> rx" where
  "rep_star r = Max_Repeat 0 None r"

definition rep_plus :: "rx \<Rightarrow> rx" where
  "rep_plus r = Max_Repeat 1 None r"

text \<open>
  A literal of a pattern compiled with \<open>re.IGNORECASE\<close>: a cased character is
  stored in lower case and compared with the lowered text character, an uncased one
  stays a plain literal. The cased characters of this program's patterns are ASCII
  letters.
\<close>

definition lit_ignore :: "codepoint \<Rightarrow> rx" where
  "lit_ignore c =
     (if ascii_upper c \<or> ascii_lower c then Literal_Ignore (ascii_tolower c) else Literal c)"

definition ci :: "string \<Rightarrow> rx" where
  "ci s = seq (map lit_ignore (ustr s))"

text \<open>
  The characters that differ from a lower-case letter and share its upper case
  (\<open>_EXTRA_CASES\<close> of the \<open>re\<close> package): among the ASCII letters, the dotless i
  for \<open>i\<close> and the long s for \<open>s\<close>.
\<close>

definition extra_cases :: "codepoint \<Rightarrow> codepoint list" where
  "extra_cases c = (if c = 105 then [305] else if c = 115 then [383] else [])"

subsection \<open>Matching with backtracking\<close>

text \<open>
  A position in the text is the character before it (none at the start) and the text
  from it on. \<open>ms u r st\<close> lists the positions where a match of \<open>r\<close> started at
  \<open>st\<close> can end, in the order in which the backtracking matcher tries them: the
  match the \<open>re\<close> module reports is the first.
\<close>

type_synonym mstate = "codepoint option \<times> pystr"

definition is_word :: "unicode_db \<Rightarrow> codepoint option \<Rightarrow> bool" where
  "is_word u c = (case c of None \<Rightarrow> False | Some x \<Rightarrow> u_alnum u x \<or> x = 95)"

fun at_boundary :: "unicode_db \<Rightarrow> mstate \<Rightarrow> bool" where
  "at_boundary u (prev, []) = is_word u prev"
| "at_boundary u (prev, x # xs) = (is_word u prev \<noteq> is_word u (Some x))"

fun item_matches :: "unicode_db \<Rightarrow> codepoint \<Rightarrow> item \<Rightarrow> bool" where
  "item_matches u x (Chr c) = (x = c)"
| "item_matches u x Category_Digit = u_decimal u x"
| "item_matches u x Category_Space = u_space u x"

fun step_char :: "(codepoint \<Rightarrow> bool) \<Rightarrow> mstate \<Rightarrow> mstate list" where
  "step_char p (prev, []) = []"
| "step_char p (prev, x # xs) = (if p x then [(Some x, xs)] else [])"

fun rsize :: "rx \<Rightarrow> nat" where
  "rsize (Seq a b) = Suc (rsize a + rsize b)"
| "rsize (Branch a b) = Suc (rsize a + rsize b)"
| "rsize (Max_Repeat lo hi r) = Suc (rsize r)"
| "rsize r = 0"

text \<open>
  A greedy repetition first tries one more round of its body, then to stop. A round
  that consumed nothing is not repeated; the bodies of this program's repetitions
  always consume a character.
\<close>

function ms :: "unicode_db \<Rightarrow> rx \<Rightarrow> mstate \<Rightarrow> mstate list" where
  "ms u Empty st = [st]"
| "ms u (Literal c) st = step_char (\<lambda>x. x = c) st"
| "ms u (Literal_Ignore c) st = step_char (\<lambda>x. u_tolower u x \<in> set (c # extra_cases c)) st"
| "ms u (In items) st = step_char (\<lambda>x. list_ex (item_matches u x) items) st"
| "ms u At_Boundary st = (if at_boundary u st then [st] else [])"
| "ms u (Seq a b) st = concat (map (ms u b) (ms u a st))"
| "ms u (Branch a b) st = ms u a st @ ms u b st"
| "ms u (Max_Repeat lo hi r) st =
     (if hi = Some 0 then []
      else concat (map (\<lambda>st'. if length (snd st') < length (snd st)
                               then ms u (Max_Repeat (lo - 1) (map_option (\<lambda>h. h - 1) hi) r) st'
                               else [])
                       (ms u r st)))
     @ (if lo = 0 then [st] else [])"
  by pat_completeness auto
termination
  by (relation "(\<lambda>(u, r, st). rsize r) <*mlex*> measure (\<lambda>(u, r, st). length (snd st))")
     (auto simp: wf_mlex mlex_less mlex_leq)

text \<open>The equation of the repetition mentions itself and is unfolded by hand only.\<close>

declare ms.simps(8) [simp del]

lemma step_char_suffix: "st' \<in> set (step_char p st) \<Longrightarrow> suffix (snd st') (snd st)"
proof (cases st)
  case (Pair prev rest)
  assume a: "st' \<in> set (step_char p st)"
  show ?thesis
  proof (cases rest)
    case Nil
    with a Pair show ?thesis by simp
  next
    case (Cons x xs)
    with a Pair have "snd st' = xs"
      by (simp split: if_splits)
    with Pair Cons show ?thesis
      by (simp add: suffix_Cons)
  qed
qed

lemma ms_suffix: "st' \<in> set (ms u r st) \<Longrightarrow> suffix (snd st') (snd st)"
proof (induction u r st arbitrary: st' rule: ms.induct)
  case (1 u st)
  then show ?case by simp
next
  case (2 u c st)
  then show ?case by (simp add: step_char_suffix)
next
  case (3 u c st)
  then show ?case by (simp add: step_char_suffix)
next
  case (4 u items st)
  then show ?case by (simp add: step_char_suffix)
next
  case (5 u st)
  then show ?case by (simp split: if_splits)
next
  case (6 u a b st)
  then obtain m where m: "m \<in> set (ms u a st)" "st' \<in> set (ms u b m)"
    by auto
  from "6.IH"(1) [OF m(1)] "6.IH"(2) [OF m(1) m(2)] show ?case
    by (rule suffix_order.trans [rotated])
next
  case (7 u a b st)
  from "7.prems" have "st' \<in> set (ms u a st) \<or> st' \<in> set (ms u b st)"
    by simp
  with "7.IH" show ?case
    by blast
next
  case (8 u lo hi r st)
  show ?case
  proof (cases "st' = st")
    case True
    then show ?thesis by simp
  next
    case False
    from "8.prems" have "st' \<in> set ((if hi = Some 0 then []
      else concat (map (\<lambda>st'. if length (snd st') < length (snd st)
                               then ms u (Max_Repeat (lo - 1) (map_option (\<lambda>h. h - 1) hi) r) st'
                               else [])
                       (ms u r st)))
     @ (if lo = 0 then [st] else []))"
      by (subst ms.simps(8) [symmetric])
    with False obtain m where m: "hi \<noteq> Some 0" "m \<in> set (ms u r st)"
      "length (snd m) < length (snd st)"
      "st' \<in> set (ms u (Max_Repeat (lo - 1) (map_option (\<lambda>h. h - 1) hi) r) m)"
      by (auto split: if_splits)
    from "8.IH"(1) [OF m(1) m(2)] "8.IH"(2) [OF m(1) m(2) m(3) m(4)] show ?thesis
      by (rule suffix_order.trans [rotated])
  qed
qed

lemma ms_length: "st' \<in> set (ms u r st) \<Longrightarrow> length (snd st') \<le> length (snd st)"
  using ms_suffix [of st' u r st] by (simp add: suffix_length_le)

subsection \<open>Searching: \<open>findall\<close> and \<open>sub\<close>\<close>

text \<open>
  The match at a position is the first end the matcher finds. After an empty match
  the next attempt at the same position must advance: an end at the position itself
  is then passed over.
\<close>

definition first_match :: "unicode_db \<Rightarrow> rx \<Rightarrow> bool \<Rightarrow> mstate \<Rightarrow> mstate option" where
  "first_match u r must_advance st =
     (case filter (\<lambda>st'. if must_advance then length (snd st') \<noteq> length (snd st) else True)
                  (ms u r st)
      of [] \<Rightarrow> None | e # _ \<Rightarrow> Some e)"

lemma first_match_set:
  assumes "first_match u r adv st = Some e"
  shows "e \<in> set (ms u r st)" and "adv \<Longrightarrow> length (snd e) \<noteq> length (snd st)"
proof -
  let ?f = "filter (\<lambda>st'. if adv then length (snd st') \<noteq> length (snd st) else True) (ms u r st)"
  from assms obtain xs where "?f = e # xs"
    by (auto simp: first_match_def split: list.splits)
  then have "e \<in> set ?f"
    by simp
  then show "e \<in> set (ms u r st)" and "adv \<Longrightarrow> length (snd e) \<noteq> length (snd st)"
    by auto
qed

lemma first_match_length:
  assumes "first_match u r adv (prev, rest) = Some (prev', rest')"
  shows "length rest' \<le> length rest" and "adv \<Longrightarrow> length rest' < length rest"
proof -
  from first_match_set(1) [OF assms] ms_length [of "(prev', rest')" u r "(prev, rest)"]
  show le: "length rest' \<le> length rest"
    by simp
  assume adv
  with first_match_set(2) [OF assms] le show "length rest' < length rest"
    by simp
qed

lemma first_match_measure:
  assumes "first_match u r adv (prev, rest) = Some (prev', rest')"
  shows "2 * length rest' + (if length rest' = length rest then 0 else 1)
           < 2 * length rest + (if adv then 0 else 1)"
  using first_match_length [OF assms] by (cases adv) auto

text \<open>
  \<open>pattern.findall(string)\<close> for a pattern without groups: the matched texts, found
  from left to right, each search starting where the last match ended.
\<close>

function findall_loop :: "unicode_db \<Rightarrow> rx \<Rightarrow> codepoint option \<Rightarrow> pystr \<Rightarrow> bool \<Rightarrow> pystr list" where
  "findall_loop u r prev rest must_advance =
     (case first_match u r must_advance (prev, rest) of
        Some (prev', rest') \<Rightarrow>
          take (length rest - length rest') rest
            # findall_loop u r prev' rest' (length rest' = length rest)
      | None \<Rightarrow>
          (case rest of
             [] \<Rightarrow> []
           | c # cs \<Rightarrow> findall_loop u r (Some c) cs False))"
  by pat_completeness auto
termination
  by (relation "measure (\<lambda>(u, r, prev, rest, adv). 2 * length rest + (if adv then 0 else 1))")
     (auto dest!: first_match_measure split: if_splits)

declare findall_loop.simps [simp del]

definition findall :: "unicode_db \<Rightarrow> rx \<Rightarrow> pystr \<Rightarrow> pystr list" where
  "findall u r s = findall_loop u r None s False"

text \<open>
  \<open>pattern.sub(repl, string)\<close> for a replacement without backslash, which is
  inserted as it is: the text between the matches is copied and each match gives
  way to \<open>repl\<close>.
\<close>

function sub_loop :: "unicode_db \<Rightarrow> rx \<Rightarrow> pystr \<Rightarrow> codepoint option \<Rightarrow> pystr \<Rightarrow> bool \<Rightarrow> pystr" where
  "sub_loop u r repl prev rest must_advance =
     (case first_match u r must_advance (prev, rest) of
        Some (prev', rest') \<Rightarrow>
          repl @ sub_loop u r repl prev' rest' (length rest' = length rest)
      | None \<Rightarrow>
          (case rest of
             [] \<Rightarrow> []
           | c # cs \<Rightarrow> c # sub_loop u r repl (Some c) cs False))"
  by pat_completeness auto
termination
  by (relation "measure (\<lambda>(u, r, repl, prev, rest, adv). 2 * length rest + (if adv then 0 else 1))")
     (auto dest!: first_match_measure split: if_splits)

declare sub_loop.simps [simp del]

definition sub :: "unicode_db \<Rightarrow> rx \<Rightarrow> pystr \<Rightarrow> pystr \<Rightarrow> pystr" where
  "sub u r repl s = sub_loop u r repl None s False"



section \<open>Strings\<close>

text \<open>\<open>needle in s\<close>: \<open>needle\<close> occurs in \<open>s\<close> as a contiguous piece.\<close>

definition py_in :: "pystr \<Rightarrow> pystr \<Rightarrow> bool" where
  "py_in needle s = sublist needle s"

text \<open>
  \<open>s.lower()\<close>: every code point gives way to its lower-case mapping; the capital
  sigma (931) becomes the final sigma (962) at the end of a word and the small sigma
  (963) elsewhere.
\<close>

fun lower_loop :: "unicode_db \<Rightarrow> pystr \<Rightarrow> pystr \<Rightarrow> pystr" where
  "lower_loop u left [] = []"
| "lower_loop u left (c # cs) =
     (if c = 931 then [if u_final_sigma u left cs then 962 else 963] else u_lower_full u c)
     @ lower_loop u (left @ [c]) cs"

definition str_lower :: "unicode_db \<Rightarrow> pystr \<Rightarrow> pystr" where
  "str_lower u s = lower_loop u [] s"

text \<open>\<open>s.strip()\<close>: white space removed at both ends.\<close>

definition strip :: "unicode_db \<Rightarrow> pystr \<Rightarrow> pystr" where
  "strip u s = rev (dropWhile (u_space u) (rev (dropWhile (u_space u) s)))"

text \<open>The decimal digits of a number, as \<open>{n}\<close> in an f-string and \<open>%d\<close> print it.\<close>

function str_of_nat :: "nat \<Rightarrow> pystr" where
  "str_of_nat n = (if n < 10 then [48 + int n] else str_of_nat (n div 10) @ [48 + int (n mod 10)])"
  by pat_completeness auto
termination
  by (relation "measure id") auto

declare str_of_nat.simps [simp del]

text \<open>
  \<open>re.escape(phrase)\<close> compiled with \<open>re.IGNORECASE\<close>: each character of the
  phrase is a literal.
\<close>

definition escape_ignore :: "pystr \<Rightarrow> rx" where
  "escape_ignore phrase = seq (map lit_ignore phrase)"

section \<open>The rule tables of \<open>guardrails.py\<close>\<close>

record Rule =
  name :: pystr
  pattern :: rx
  replacement :: pystr

definition any_digit :: rx where
  "any_digit = In [Category_Digit]"

definition any_space :: rx where
  "any_space = In [Category_Space]"

text \<open>\<open>[\d,]+(?:\.\d{1,2})?\<close>\<close>

definition amount :: rx where
  "amount = seq [rep_plus (In [Category_Digit, Chr 44]),
                 rep_opt (seq [Literal 46, Max_Repeat 1 (Some 2) any_digit])]"

text \<open>\<open>Rs\.?\<close>, and the rupee sign U+20B9\<close>

definition rs_token :: rx where
  "rs_token = seq [ci ''Rs'', rep_opt (Literal 46)]"

definition rupee_sign :: rx where
  "rupee_sign = Literal 8377"

text \<open>
  \<open>(?:(?:Rs\.?|INR|R)\s*[\d,]+(?:\.\d{1,2})?|[\d,]+(?:\.\d{1,2})?\s*(?:Rs\.?|INR|R|rupees))\<close>
  where \<open>R\<close> stands for the rupee sign.
\<close>

definition price_pattern :: rx where
  "price_pattern = Branch
     (seq [branch [rs_token, ci ''INR'', rupee_sign], rep_star any_space, amount])
     (seq [amount, rep_star any_space,
           branch [rs_token, ci ''INR'', rupee_sign, ci ''rupees'']])"

text \<open>\<open>\b(?:within|in)\s+\d+\s*(?:hours?|days?|weeks?|months?)\b\<close>\<close>

definition timeline_pattern :: rx where
  "timeline_pattern = seq
     [At_Boundary, branch [ci ''within'', ci ''in''], rep_plus any_space, rep_plus any_digit,
      rep_star any_space,
      branch [seq [ci ''hour'', rep_opt (ci ''s'')], seq [ci ''day'', rep_opt (ci ''s'')],
              seq [ci ''week'', rep_opt (ci ''s'')], seq [ci ''month'', rep_opt (ci ''s'')]],
      At_Boundary]"

text \<open>
  \<open>\b(?:100\s*%\s*guarant(?:ee|y)|lifetime\s+(?:guarant(?:ee|y)|warranty)|\<close>
  \<open>permanent(?:ly)?\s+(?:fix|solv|cur)|never\s+(?:leak|seep|damage)\s+again)\b\<close>
\<close>

definition guarantee_pattern :: rx where
  "guarantee_pattern = seq
     [At_Boundary,
      branch
        [seq [ci ''100'', rep_star any_space, Literal 37, rep_star any_space, ci ''guarant'',
              branch [ci ''ee'', ci ''y'']],
         seq [ci ''lifetime'', rep_plus any_space,
              branch [seq [ci ''guarant'', branch [ci ''ee'', ci ''y'']], ci ''warranty'']],
         seq [ci ''permanent'', rep_opt (ci ''ly''), rep_plus any_space,
              branch [ci ''fix'', ci ''solv'', ci ''cur'']],
         seq [ci ''never'', rep_plus any_space, branch [ci ''leak'', ci ''seep'', ci ''damage''],
              rep_plus any_space, ci ''again'']],
      At_Boundary]"

text \<open>
  \<open>\b(?:your\s+(?:house|home|building)\s+(?:will|could)\s+collapse|\<close>
  \<open>extremely\s+dangerous|life[- ]threatening\s+(?:situation|condition))\b\<close>
\<close>

definition scare_pattern :: rx where
  "scare_pattern = seq
     [At_Boundary,
      branch
        [seq [ci ''your'', rep_plus any_space, branch [ci ''house'', ci ''home'', ci ''building''],
              rep_plus any_space, branch [ci ''will'', ci ''could''], rep_plus any_space,
              ci ''collapse''],
         seq [ci ''extremely'', rep_plus any_space, ci ''dangerous''],
         seq [ci ''life'', In [Chr 45, Chr 32], ci ''threatening'', rep_plus any_space,
              branch [ci ''situation'', ci ''condition'']]],
      At_Boundary]"

text \<open>\<open>\b(?:other\s+companies\s+(?:will|would)\s+(?:cheat|scam|overcharge|rip\s*off))\b\<close>\<close>

definition competitor_pattern :: rx where
  "competitor_pattern = seq
     [At_Boundary,
      seq [ci ''other'', rep_plus any_space, ci ''companies'', rep_plus any_space,
           branch [ci ''will'', ci ''would''], rep_plus any_space,
           branch [ci ''cheat'', ci ''scam'', ci ''overcharge'',
                   seq [ci ''rip'', rep_star any_space, ci ''off'']]],
      At_Boundary]"

definition RULES :: "Rule list" where
  "RULES =
     [\<lparr>name = ustr ''hallucinated_exact_price'', pattern = price_pattern,
       replacement = ustr ''(pricing will be determined after a professional on-site assessment)''\<rparr>,
      \<lparr>name = ustr ''hallucinated_timeline'', pattern = timeline_pattern,
       replacement = ustr ''(timeline will be confirmed after assessment)''\<rparr>,
      \<lparr>name = ustr ''absolute_guarantee'', pattern = guarantee_pattern,
       replacement = ustr ''(long-lasting solutions backed by professional assessment)''\<rparr>,
      \<lparr>name = ustr ''scare_tactics'', pattern = scare_pattern,
       replacement = ustr ''(we recommend a professional assessment to evaluate the situation)''\<rparr>,
      \<lparr>name = ustr ''competitor_bashing'', pattern = competitor_pattern,
       replacement = ustr ''(we focus on transparency and professional service)''\<rparr>]"

text \<open>The apostrophe of \<open>i don't have access to real-time\<close> is the code point 39.\<close>

definition BLOCKED_PHRASES :: "(pystr \<times> pystr) list" where
  "BLOCKED_PHRASES =
     [(ustr ''i am an ai'', []),
      (ustr ''as an ai language model'', []),
      (ustr ''as a large language model'', []),
      (ustr ''i don'' @ [39] @ ustr ''t have access to real-time'', [])]"

section \<open>\<open>apply_guardrails\<close>\<close>

record GuardrailCheck =
  passed :: bool
  flags :: "pystr list"
  modifications_applied :: "pystr list"

text \<open>The logger is the one piece of state the function touches: it appends records.\<close>

datatype level = DEBUG | INFO | WARNING

type_synonym log = "(level \<times> pystr) list"

text \<open>The local variables of the two loops: \<open>flags\<close>, \<open>modifications\<close>, \<open>cleaned\<close>, and the log.\<close>

type_synonym locals = "pystr list \<times> pystr list \<times> pystr \<times> log"

definition pattern_flag :: "pystr \<Rightarrow> nat \<Rightarrow> pystr" where
  "pattern_flag nm n = nm @ ustr '': matched '' @ str_of_nat n @ ustr '' occurrence(s)''"

definition pattern_modification :: "pystr \<Rightarrow> pystr" where
  "pattern_modification nm = ustr ''Replaced '' @ nm @ ustr '' matches with safe alternative.''"

definition pattern_log :: "pystr \<Rightarrow> nat \<Rightarrow> level \<times> pystr" where
  "pattern_log nm n =
     (INFO, ustr ''Guardrail ['' @ nm @ ustr ''] triggered '' @ [8212] @ ustr '' ''
              @ str_of_nat n @ ustr '' match(es).'')"

definition phrase_flag :: "pystr \<Rightarrow> pystr" where
  "phrase_flag phrase = ustr ''blocked_phrase: '' @ [39] @ phrase @ [39]"

definition phrase_modification :: "pystr \<Rightarrow> pystr" where
  "phrase_modification phrase = ustr ''Removed blocked phrase: '' @ [39] @ phrase @ [39]"

definition phrase_log :: "pystr \<Rightarrow> level \<times> pystr" where
  "phrase_log phrase = (INFO, ustr ''Guardrail blocked phrase removed: '' @ [39] @ phrase @ [39])"

text \<open>\<open>for rule in _RULES: ...\<close>\<close>

fun rules_loop :: "unicode_db \<Rightarrow> Rule list \<Rightarrow> locals \<Rightarrow> locals" where
  "rules_loop u [] st = st"
| "rules_loop u (rule # rest) (fl, mods, cleaned, lg) =
     (let matches = findall u (pattern rule) cleaned in
      if matches \<noteq> [] then
        rules_loop u rest
          (fl @ [pattern_flag (name rule) (length matches)],
           mods @ [pattern_modification (name rule)],
           sub u (pattern rule) (replacement rule) cleaned,
           lg @ [pattern_log (name rule) (length matches)])
      else rules_loop u rest (fl, mods, cleaned, lg))"

text \<open>
  \<open>for phrase, repl in _BLOCKED_PHRASES: ...\<close>, where \<open>lower_cleaned\<close> was computed
  before the loop and stays as it is.
\<close>

fun phrases_loop :: "unicode_db \<Rightarrow> pystr \<Rightarrow> (pystr \<times> pystr) list \<Rightarrow> locals \<Rightarrow> locals" where
  "phrases_loop u lower_cleaned [] st = st"
| "phrases_loop u lower_cleaned ((phrase, repl) # rest) (fl, mods, cleaned, lg) =
     (if py_in phrase lower_cleaned then
        phrases_loop u lower_cleaned rest
          (fl @ [phrase_flag phrase],
           mods @ [phrase_modification phrase],
           sub u (escape_ignore phrase) repl cleaned,
           lg @ [phrase_log phrase])
      else phrases_loop u lower_cleaned rest (fl, mods, cleaned, lg))"

text \<open>The two patterns of the last step: two or more spaces, three or more newlines.\<close>

definition spaces_pattern :: rx where
  "spaces_pattern = seq [Literal 32, rep_plus (Literal 32)]"

definition newlines_pattern :: rx where
  "newlines_pattern = Max_Repeat 3 None (Literal 10)"

definition apply_guardrails ::
  "unicode_db \<Rightarrow> pystr \<Rightarrow> log \<Rightarrow> (pystr \<times> GuardrailCheck) \<times> log" where
  "apply_guardrails u draft_reply lg0 =
     (case rules_loop u RULES ([], [], draft_reply, lg0) of (fl1, mods1, cleaned1, lg1) \<Rightarrow>
      case phrases_loop u (str_lower u cleaned1) BLOCKED_PHRASES (fl1, mods1, cleaned1, lg1)
      of (fl2, mods2, cleaned2, lg2) \<Rightarrow>
        let cleaned3 = strip u (sub u spaces_pattern [32] cleaned2);
            cleaned4 = sub u newlines_pattern [10, 10] cleaned3;
            passed = (fl2 = []);
            check = \<lparr>passed = passed, flags = fl2, modifications_applied = mods2\<rparr>
        in ((cleaned4, check),
            lg2 @ [if passed
                   then (DEBUG, ustr ''Guardrail check PASSED '' @ [8212] @ ustr '' no issues found.'')
                   else (WARNING, ustr ''Guardrail check FAILED '' @ [8212] @ ustr '' ''
                           @ str_of_nat (length fl2) @ ustr '' flag(s) raised.'')]))"

section \<open>What the two loops record\<close>

text \<open>
  \<open>cleaned_after u rs d\<close> is the value of \<open>cleaned\<close> once the rules \<open>rs\<close> have run
  on the draft \<open>d\<close>; \<open>rule_count u rs k d\<close> is the number of matches the \<open>k\<close>-th
  rule finds in the text it meets, that is, after the \<open>k\<close> rules before it. A rule
  triggers when this number is positive. A phrase triggers when it occurs in the
  lower-cased text left by the pattern rules.
\<close>

definition cleaned_after :: "unicode_db \<Rightarrow> Rule list \<Rightarrow> pystr \<Rightarrow> pystr" where
  "cleaned_after u rs d = (case rules_loop u rs ([], [], d, []) of (fl, mods, cleaned, lg) \<Rightarrow> cleaned)"

definition rule_count :: "unicode_db \<Rightarrow> Rule list \<Rightarrow> nat \<Rightarrow> pystr \<Rightarrow> nat" where
  "rule_count u rs k d = length (findall u (pattern (rs ! k)) (cleaned_after u (take k rs) d))"

definition triggered_rules :: "unicode_db \<Rightarrow> Rule list \<Rightarrow> pystr \<Rightarrow> nat list" where
  "triggered_rules u rs d = filter (\<lambda>k. 0 < rule_count u rs k d) [0..<length rs]"

definition triggered_phrases :: "unicode_db \<Rightarrow> pystr \<Rightarrow> pystr list" where
  "triggered_phrases u d =
     filter (\<lambda>p. py_in p (str_lower u (cleaned_after u RULES d))) (map fst BLOCKED_PHRASES)"

lemma rules_loop_acc:
  "rules_loop u rs (fl, mods, cl, lg) =
     (case rules_loop u rs ([], [], cl, []) of (F, M, c, L) \<Rightarrow> (fl @ F, mods @ M, c, lg @ L))"
proof (induction rs arbitrary: fl mods cl lg)
  case Nil
  show ?case by simp
next
  case (Cons r rs)
  show ?case
  proof (cases "findall u (pattern r) cl = []")
    case True
    then show ?thesis
      using Cons.IH [of fl mods cl lg] by simp
  next
    case False
    let ?n = "length (findall u (pattern r) cl)"
    let ?c = "sub u (pattern r) (replacement r) cl"
    have "rules_loop u (r # rs) (fl, mods, cl, lg) =
        rules_loop u rs (fl @ [pattern_flag (name r) ?n], mods @ [pattern_modification (name r)],
          ?c, lg @ [pattern_log (name r) ?n])"
      using False by (simp add: Let_def)
    also have "\<dots> = (case rules_loop u rs ([], [], ?c, []) of (F, M, c, L) \<Rightarrow>
        ((fl @ [pattern_flag (name r) ?n]) @ F, (mods @ [pattern_modification (name r)]) @ M, c,
         (lg @ [pattern_log (name r) ?n]) @ L))"
      by (rule Cons.IH)
    finally have lhs: "rules_loop u (r # rs) (fl, mods, cl, lg) =
      (case rules_loop u rs ([], [], ?c, []) of (F, M, c, L) \<Rightarrow>
        ((fl @ [pattern_flag (name r) ?n]) @ F, (mods @ [pattern_modification (name r)]) @ M, c,
         (lg @ [pattern_log (name r) ?n]) @ L))" .
    have "rules_loop u (r # rs) ([], [], cl, []) =
        rules_loop u rs ([pattern_flag (name r) ?n], [pattern_modification (name r)],
          ?c, [pattern_log (name r) ?n])"
      using False by (simp add: Let_def)
    also have "\<dots> = (case rules_loop u rs ([], [], ?c, []) of (F, M, c, L) \<Rightarrow>
        ([pattern_flag (name r) ?n] @ F, [pattern_modification (name r)] @ M, c,
         [pattern_log (name r) ?n] @ L))"
      by (rule Cons.IH)
    finally have rhs: "rules_loop u (r # rs) ([], [], cl, []) =
       (case rules_loop u rs ([], [], ?c, []) of (F, M, c, L) \<Rightarrow>
        ([pattern_flag (name r) ?n] @ F, [pattern_modification (name r)] @ M, c,
         [pattern_log (name r) ?n] @ L))" .
    show ?thesis
      unfolding lhs rhs by (simp split: prod.splits)
  qed
qed

lemma rules_loop_append:
  "rules_loop u (rs1 @ rs2) st = rules_loop u rs2 (rules_loop u rs1 st)"
proof (induction rs1 arbitrary: st)
  case Nil
  show ?case by simp
next
  case (Cons r rs1)
  obtain fl mods cl lg where st: "st = (fl, mods, cl, lg)"
    by (cases st) auto
  show ?case
    unfolding st by (simp add: Let_def Cons.IH)
qed


lemma rules_loop_snoc:
  "rules_loop u (rs0 @ [r]) ([], [], d, []) =
     (case rules_loop u rs0 ([], [], d, []) of (F, M, c, L) \<Rightarrow>
        if findall u (pattern r) c \<noteq> [] then
          (F @ [pattern_flag (name r) (length (findall u (pattern r) c))],
           M @ [pattern_modification (name r)],
           sub u (pattern r) (replacement r) c,
           L @ [pattern_log (name r) (length (findall u (pattern r) c))])
        else (F, M, c, L))"
  by (simp add: rules_loop_append Let_def split: prod.splits)

lemma rule_count_snoc:
  "k < length rs0 \<Longrightarrow> rule_count u (rs0 @ [r]) k d = rule_count u rs0 k d"
  by (simp add: rule_count_def nth_append)

lemma rule_count_last:
  "rule_count u (rs0 @ [r]) (length rs0) d = length (findall u (pattern r) (cleaned_after u rs0 d))"
  by (simp add: rule_count_def)

lemma triggered_rules_snoc:
  "triggered_rules u (rs0 @ [r]) d =
     triggered_rules u rs0 d @ (if 0 < rule_count u (rs0 @ [r]) (length rs0) d then [length rs0] else [])"
proof -
  have "filter (\<lambda>k. 0 < rule_count u (rs0 @ [r]) k d) [0..<length rs0] =
        filter (\<lambda>k. 0 < rule_count u rs0 k d) [0..<length rs0]"
    by (rule filter_cong) (simp_all add: rule_count_snoc)
  then show ?thesis
    by (simp add: triggered_rules_def)
qed

lemma triggered_rules_bound: "k \<in> set (triggered_rules u rs0 d) \<Longrightarrow> k < length rs0"
  by (simp add: triggered_rules_def)

lemma rules_loop_closed:
  "rules_loop u rs0 ([], [], d, []) =
     (map (\<lambda>k. pattern_flag (name (rs0 ! k)) (rule_count u rs0 k d)) (triggered_rules u rs0 d),
      map (\<lambda>k. pattern_modification (name (rs0 ! k))) (triggered_rules u rs0 d),
      cleaned_after u rs0 d,
      map (\<lambda>k. pattern_log (name (rs0 ! k)) (rule_count u rs0 k d)) (triggered_rules u rs0 d))"
proof (induction rs0 rule: rev_induct)
  case Nil
  show ?case by (simp add: triggered_rules_def cleaned_after_def)
next
  case (snoc r rs0)
  let ?T = "triggered_rules u rs0 d"
  let ?c = "cleaned_after u rs0 d"
  let ?n = "length (findall u (pattern r) ?c)"
  have f: "map (\<lambda>k. pattern_flag (name ((rs0 @ [r]) ! k)) (rule_count u (rs0 @ [r]) k d)) ?T =
           map (\<lambda>k. pattern_flag (name (rs0 ! k)) (rule_count u rs0 k d)) ?T"
    by (rule map_cong) (auto dest: triggered_rules_bound simp: nth_append rule_count_snoc)
  have m: "map (\<lambda>k. pattern_modification (name ((rs0 @ [r]) ! k))) ?T =
           map (\<lambda>k. pattern_modification (name (rs0 ! k))) ?T"
    by (rule map_cong) (auto dest: triggered_rules_bound simp: nth_append)
  have l: "map (\<lambda>k. pattern_log (name ((rs0 @ [r]) ! k)) (rule_count u (rs0 @ [r]) k d)) ?T =
           map (\<lambda>k. pattern_log (name (rs0 ! k)) (rule_count u rs0 k d)) ?T"
    by (rule map_cong) (auto dest: triggered_rules_bound simp: nth_append rule_count_snoc)
  have c: "cleaned_after u (rs0 @ [r]) d =
           (if findall u (pattern r) ?c \<noteq> [] then sub u (pattern r) (replacement r) ?c else ?c)"
    by (simp add: cleaned_after_def rules_loop_snoc split: prod.splits)
  show ?case
    unfolding rules_loop_snoc snoc.IH
    by (simp add: triggered_rules_snoc rule_count_last f m l c)
qed

lemma phrases_loop_flags:
  "fst (phrases_loop u low ps (fl, mods, cl, lg)) =
     fl @ map phrase_flag (filter (\<lambda>p. py_in p low) (map fst ps))"
proof (induction ps arbitrary: fl mods cl lg)
  case Nil
  show ?case by simp
next
  case (Cons a ps)
  obtain phrase repl where a: "a = (phrase, repl)"
    by (cases a) auto
  show ?case
    unfolding a by (simp add: Cons.IH)
qed

lemma phrases_loop_mods:
  "fst (snd (phrases_loop u low ps (fl, mods, cl, lg))) =
     mods @ map phrase_modification (filter (\<lambda>p. py_in p low) (map fst ps))"
proof (induction ps arbitrary: fl mods cl lg)
  case Nil
  show ?case by simp
next
  case (Cons a ps)
  obtain phrase repl where a: "a = (phrase, repl)"
    by (cases a) auto
  show ?case
    unfolding a by (simp add: Cons.IH)
qed


lemma apply_guardrails_flags:
  assumes "apply_guardrails u d lg = ((c, chk), lg')"
  shows "flags chk =
      map (\<lambda>k. pattern_flag (name (RULES ! k)) (rule_count u RULES k d)) (triggered_rules u RULES d)
      @ map phrase_flag (triggered_phrases u d)"
proof -
  obtain F M cl L where r: "rules_loop u RULES ([], [], d, lg) = (F, M, cl, L)"
    by (cases "rules_loop u RULES ([], [], d, lg)") auto
  obtain F2 M2 cl2 L2 where
    p: "phrases_loop u (str_lower u cl) BLOCKED_PHRASES (F, M, cl, L) = (F2, M2, cl2, L2)"
    by (cases "phrases_loop u (str_lower u cl) BLOCKED_PHRASES (F, M, cl, L)") auto
  from assms r p have chk: "flags chk = F2"
    by (auto simp: apply_guardrails_def Let_def)
  from r have F: "F = map (\<lambda>k. pattern_flag (name (RULES ! k)) (rule_count u RULES k d))
      (triggered_rules u RULES d)" and cl: "cl = cleaned_after u RULES d"
    by (simp_all add: rules_loop_acc [of u RULES "[]" "[]" d lg] rules_loop_closed)
  from p phrases_loop_flags [of u "str_lower u cl" BLOCKED_PHRASES F M cl L]
  have "F2 = F @ map phrase_flag (filter (\<lambda>p. py_in p (str_lower u cl)) (map fst BLOCKED_PHRASES))"
    by simp
  with chk F cl show ?thesis
    by (simp add: triggered_phrases_def)
qed

lemma apply_guardrails_mods:
  assumes "apply_guardrails u d lg = ((c, chk), lg')"
  shows "modifications_applied chk =
      map (\<lambda>k. pattern_modification (name (RULES ! k))) (triggered_rules u RULES d)
      @ map phrase_modification (triggered_phrases u d)"
proof -
  obtain F M cl L where r: "rules_loop u RULES ([], [], d, lg) = (F, M, cl, L)"
    by (cases "rules_loop u RULES ([], [], d, lg)") auto
  obtain F2 M2 cl2 L2 where
    p: "phrases_loop u (str_lower u cl) BLOCKED_PHRASES (F, M, cl, L) = (F2, M2, cl2, L2)"
    by (cases "phrases_loop u (str_lower u cl) BLOCKED_PHRASES (F, M, cl, L)") auto
  from assms r p have chk: "modifications_applied chk = M2"
    by (auto simp: apply_guardrails_def Let_def)
  from r have M: "M = map (\<lambda>k. pattern_modification (name (RULES ! k)))
      (triggered_rules u RULES d)" and cl: "cl = cleaned_after u RULES d"
    by (simp_all add: rules_loop_acc [of u RULES "[]" "[]" d lg] rules_loop_closed)
  from p phrases_loop_mods [of u "str_lower u cl" BLOCKED_PHRASES F M cl L]
  have "M2 = M @ map phrase_modification (filter (\<lambda>p. py_in p (str_lower u cl)) (map fst BLOCKED_PHRASES))"
    by simp
  with chk M cl show ?thesis
    by (simp add: triggered_phrases_def)
qed

lemma apply_guardrails_passed:
  assumes "apply_guardrails u d lg = ((c, chk), lg')"
  shows "passed chk = (flags chk = [])"
  using assms by (auto simp: apply_guardrails_def Let_def split: prod.splits)


section \<open>The shape of the flags\<close>

text \<open>
  A flag of a pattern rule starts with the rule's name and \<open>: matched\<close>, a flag of a
  blocked phrase with \<open>blocked_phrase: '\<close>. The first fourteen characters of a flag
  tell the rules apart.
\<close>

definition is_pattern_flag :: "pystr \<Rightarrow> bool" where
  "is_pattern_flag f = list_ex (\<lambda>r. prefix (name r @ ustr '': matched '') f) RULES"

definition is_phrase_flag :: "pystr \<Rightarrow> bool" where
  "is_phrase_flag f = prefix (ustr ''blocked_phrase: '' @ [39]) f"

definition flag_keys :: "pystr list" where
  "flag_keys = map ustr [''hallucinated_e'', ''hallucinated_t'', ''absolute_guara'',
     ''scare_tactics:'', ''competitor_bas'']"

lemma length_RULES: "length RULES = 5"
  by (simp add: RULES_def)

lemma flag_keys_distinct: "distinct flag_keys" and blocked_key: "ustr ''blocked_phrase'' \<notin> set flag_keys"
  by (simp_all add: flag_keys_def ustr_def)

lemma rule_prefix_keys:
  "map (\<lambda>r. take 14 (name r @ ustr '': matched '' @ rest)) RULES = flag_keys"
  by (simp add: RULES_def flag_keys_def ustr_def)

lemma pattern_flag_key:
  assumes "k < length RULES"
  shows "take 14 (pattern_flag (name (RULES ! k)) m) = flag_keys ! k"
proof -
  have "take 14 (pattern_flag (name (RULES ! k)) m) =
      map (\<lambda>r. take 14 (name r @ ustr '': matched '' @ (str_of_nat m @ ustr '' occurrence(s)''))) RULES ! k"
    using assms by (simp add: pattern_flag_def)
  then show ?thesis
    by (simp only: rule_prefix_keys)
qed

lemma phrase_flag_key: "take 14 (phrase_flag p) = ustr ''blocked_phrase''"
  by (simp add: phrase_flag_def ustr_def)

lemma phrase_flag_inj: "phrase_flag p = phrase_flag q \<Longrightarrow> p = q"
  by (simp add: phrase_flag_def)

lemma phrases_distinct: "distinct (map fst BLOCKED_PHRASES)"
  by (simp add: BLOCKED_PHRASES_def ustr_def)

lemma length_flag_keys: "length flag_keys = 5"
  by (simp add: flag_keys_def)

lemma pattern_flags_distinct:
  "distinct (map (\<lambda>k. pattern_flag (name (RULES ! k)) (cnt k)) (triggered_rules u RULES d))"
proof -
  have "inj_on (\<lambda>k. pattern_flag (name (RULES ! k)) (cnt k)) (set (triggered_rules u RULES d))"
  proof (rule inj_onI)
    fix i j
    assume i: "i \<in> set (triggered_rules u RULES d)" and j: "j \<in> set (triggered_rules u RULES d)"
      and eq: "pattern_flag (name (RULES ! i)) (cnt i) = pattern_flag (name (RULES ! j)) (cnt j)"
    from i j have b: "i < length RULES" "j < length RULES"
      by (auto dest: triggered_rules_bound)
    from eq have "take 14 (pattern_flag (name (RULES ! i)) (cnt i)) =
        take 14 (pattern_flag (name (RULES ! j)) (cnt j))"
      by simp
    with b have "flag_keys ! i = flag_keys ! j"
      by (simp add: pattern_flag_key)
    with b flag_keys_distinct show "i = j"
      by (simp add: nth_eq_iff_index_eq length_RULES length_flag_keys)
  qed
  moreover have "distinct (triggered_rules u RULES d)"
    by (simp add: triggered_rules_def)
  ultimately show ?thesis
    by (simp add: distinct_map)
qed

lemma phrase_flags_distinct: "distinct (map phrase_flag (triggered_phrases u d))"
proof -
  have "distinct (triggered_phrases u d)"
    unfolding triggered_phrases_def by (rule distinct_filter) (rule phrases_distinct)
  moreover have "inj_on phrase_flag (set (triggered_phrases u d))"
    by (rule inj_onI) (rule phrase_flag_inj)
  ultimately show ?thesis
    by (simp add: distinct_map)
qed

lemma pattern_flag_kind:
  assumes "k < length RULES"
  shows "is_pattern_flag (pattern_flag (name (RULES ! k)) m)"
    and "\<not> is_phrase_flag (pattern_flag (name (RULES ! k)) m)"
proof -
  have "prefix (name (RULES ! k) @ ustr '': matched '') (pattern_flag (name (RULES ! k)) m)"
    by (simp add: pattern_flag_def)
  moreover from assms have "RULES ! k \<in> set RULES"
    by simp
  ultimately show "is_pattern_flag (pattern_flag (name (RULES ! k)) m)"
    unfolding is_pattern_flag_def list_ex_iff by blast
  show "\<not> is_phrase_flag (pattern_flag (name (RULES ! k)) m)"
  proof
    assume "is_phrase_flag (pattern_flag (name (RULES ! k)) m)"
    then obtain zs where "pattern_flag (name (RULES ! k)) m = (ustr ''blocked_phrase: '' @ [39]) @ zs"
      unfolding is_phrase_flag_def prefix_def by blast
    then have "take 14 (pattern_flag (name (RULES ! k)) m) = ustr ''blocked_phrase''"
      by (simp add: ustr_def)
    with assms have "flag_keys ! k = ustr ''blocked_phrase''"
      by (simp add: pattern_flag_key)
    moreover from assms have "flag_keys ! k \<in> set flag_keys"
      by (simp add: length_RULES length_flag_keys)
    ultimately show False
      using blocked_key by simp
  qed
qed

lemma phrase_flag_kind:
  shows "is_phrase_flag (phrase_flag p)" and "\<not> is_pattern_flag (phrase_flag p)"
proof -
  show "is_phrase_flag (phrase_flag p)"
    by (simp add: is_phrase_flag_def phrase_flag_def)
  show "\<not> is_pattern_flag (phrase_flag p)"
  proof
    assume "is_pattern_flag (phrase_flag p)"
    then obtain r where r: "r \<in> set RULES" "prefix (name r @ ustr '': matched '') (phrase_flag p)"
      unfolding is_pattern_flag_def list_ex_iff by blast
    then obtain zs where "phrase_flag p = name r @ ustr '': matched '' @ zs"
      unfolding prefix_def by auto
    then have "take 14 (name r @ ustr '': matched '' @ zs) = ustr ''blocked_phrase''"
      using phrase_flag_key [of p] by simp
    moreover from r(1) have "take 14 (name r @ ustr '': matched '' @ zs) \<in> set flag_keys"
      unfolding rule_prefix_keys [of zs, symmetric] by simp
    ultimately show False
      using blocked_key by simp
  qed
qed


lemma apply_guardrails_collapse:
  "apply_guardrails u d lg =
     ((fst (fst (apply_guardrails u d lg)), snd (fst (apply_guardrails u d lg))),
      snd (apply_guardrails u d lg))"
  by simp

section \<open>The audit record\<close>

text \<open>
  C7. Each flag of a pattern rule is the rule's name, \<open>: matched\<close>, the number of
  matches the rule finds in the text as the rules before it left it, and
  \<open>occurrence(s)\<close>; each flag of a phrase is \<open>blocked_phrase: '<phrase>'\<close>. The list
  \<open>modifications_applied\<close> has one entry for each triggering rule, in the order of the
  flags, so the two lists have the same length.
\<close>

theorem audit_record_format:
  "(let chk = snd (fst (apply_guardrails u d lg)) in
      flags chk =
        map (\<lambda>k. name (RULES ! k) @ ustr '': matched ''
                  @ str_of_nat (length (findall u (pattern (RULES ! k))
                                         (cleaned_after u (take k RULES) d)))
                  @ ustr '' occurrence(s)'')
            (triggered_rules u RULES d)
        @ map (\<lambda>p. ustr ''blocked_phrase: '' @ [39] @ p @ [39]) (triggered_phrases u d)
      \<and> modifications_applied chk =
        map (\<lambda>k. ustr ''Replaced '' @ name (RULES ! k) @ ustr '' matches with safe alternative.'')
            (triggered_rules u RULES d)
        @ map (\<lambda>p. ustr ''Removed blocked phrase: '' @ [39] @ p @ [39]) (triggered_phrases u d)
      \<and> length (modifications_applied chk) = length (flags chk))"
proof -
  note c = apply_guardrails_collapse [of u d lg]
  have f: "flags (snd (fst (apply_guardrails u d lg))) =
      map (\<lambda>k. pattern_flag (name (RULES ! k)) (rule_count u RULES k d)) (triggered_rules u RULES d)
      @ map phrase_flag (triggered_phrases u d)"
    by (rule apply_guardrails_flags [OF c])
  have m: "modifications_applied (snd (fst (apply_guardrails u d lg))) =
      map (\<lambda>k. pattern_modification (name (RULES ! k))) (triggered_rules u RULES d)
      @ map phrase_modification (triggered_phrases u d)"
    by (rule apply_guardrails_mods [OF c])
  show ?thesis
    unfolding Let_def f m
    by (simp add: pattern_flag_def rule_count_def phrase_flag_def pattern_modification_def
        phrase_modification_def)
qed

text \<open>
  C4. The flags have one entry for each rule that triggered, however many matches the
  rule found: their number is the number of triggering pattern rules plus the number
  of triggering phrases, no rule counted twice. The check passes exactly when no rule
  triggered, which is when there is no flag.
\<close>

theorem exhaustive_detection:
  "(let chk = snd (fst (apply_guardrails u d lg));
        n = length (triggered_rules u RULES d) + length (triggered_phrases u d)
    in length (flags chk) = n \<and> passed chk = (n = 0) \<and> passed chk = (flags chk = [])
       \<and> distinct (triggered_rules u RULES d) \<and> distinct (triggered_phrases u d))"
proof -
  note c = apply_guardrails_collapse [of u d lg]
  have d1: "distinct (triggered_rules u RULES d)"
    by (simp add: triggered_rules_def)
  have d2: "distinct (triggered_phrases u d)"
    unfolding triggered_phrases_def by (rule distinct_filter) (rule phrases_distinct)
  show ?thesis
    unfolding Let_def apply_guardrails_passed [OF c] apply_guardrails_flags [OF c]
    using d1 d2 by simp
qed

text \<open>
  C10. No flag occurs twice, there are at most nine flags (five pattern rules and four
  phrases), every flag is of exactly one of the two kinds, and the flags of the pattern
  rules all come before the flags of the phrases.
\<close>

theorem flags_bound_and_order:
  "(let fl = flags (snd (fst (apply_guardrails u d lg))) in
      distinct fl \<and> length fl \<le> 9 \<and>
      (\<forall>i<length fl. is_pattern_flag (fl ! i) \<noteq> is_phrase_flag (fl ! i)) \<and>
      (\<forall>i j. i < length fl \<and> j < length fl \<and> is_pattern_flag (fl ! i) \<and> is_phrase_flag (fl ! j)
         \<longrightarrow> i < j))"
proof -
  let ?T = "triggered_rules u RULES d"
  let ?A = "map (\<lambda>k. pattern_flag (name (RULES ! k)) (rule_count u RULES k d)) ?T"
  let ?B = "map phrase_flag (triggered_phrases u d)"
  have fl: "flags (snd (fst (apply_guardrails u d lg))) = ?A @ ?B"
    by (rule apply_guardrails_flags [OF apply_guardrails_collapse])
  have A: "is_pattern_flag (?A ! i) \<and> \<not> is_phrase_flag (?A ! i)" if "i < length ?A" for i
  proof -
    from that have "?T ! i \<in> set ?T"
      by simp
    then have "?T ! i < length RULES"
      by (rule triggered_rules_bound)
    with that show ?thesis
      by (simp add: pattern_flag_kind)
  qed
  have B: "is_phrase_flag (?B ! i) \<and> \<not> is_pattern_flag (?B ! i)" if "i < length ?B" for i
    using that by (simp add: phrase_flag_kind)
  have disj: "set ?A \<inter> set ?B = {}"
  proof (rule ccontr)
    assume "set ?A \<inter> set ?B \<noteq> {}"
    then obtain f where "f \<in> set ?A" "f \<in> set ?B"
      by blast
    then obtain i j where "i < length ?A" "?A ! i = f" "j < length ?B" "?B ! j = f"
      unfolding in_set_conv_nth by blast
    with A [of i] B [of j] show False
      by simp
  qed
  have len: "length (?A @ ?B) \<le> 9"
  proof -
    have "length ?T \<le> length [0..<length RULES]"
      unfolding triggered_rules_def by (rule length_filter_le)
    moreover have "length (triggered_phrases u d) \<le> length (map fst BLOCKED_PHRASES)"
      unfolding triggered_phrases_def by (rule length_filter_le)
    ultimately show ?thesis
      by (simp add: length_RULES BLOCKED_PHRASES_def)
  qed
  have kinds: "is_pattern_flag ((?A @ ?B) ! i) \<noteq> is_phrase_flag ((?A @ ?B) ! i)"
    and side: "is_pattern_flag ((?A @ ?B) ! i) = (i < length ?A)"
    if "i < length (?A @ ?B)" for i
  proof -
    show "is_pattern_flag ((?A @ ?B) ! i) \<noteq> is_phrase_flag ((?A @ ?B) ! i)"
    proof (cases "i < length ?A")
      case True
      with A [of i] show ?thesis by (simp add: nth_append)
    next
      case False
      with that have "i - length ?A < length ?B"
        by simp
      from B [OF this] False show ?thesis by (simp add: nth_append)
    qed
    show "is_pattern_flag ((?A @ ?B) ! i) = (i < length ?A)"
    proof (cases "i < length ?A")
      case True
      with A [of i] show ?thesis by (simp add: nth_append)
    next
      case False
      with that have "i - length ?A < length ?B"
        by simp
      from B [OF this] False show ?thesis by (simp add: nth_append)
    qed
  qed
  have order: "i < j" if "i < length (?A @ ?B)" "j < length (?A @ ?B)"
    "is_pattern_flag ((?A @ ?B) ! i)" "is_phrase_flag ((?A @ ?B) ! j)" for i j
  proof -
    from that(3) side [OF that(1)] have "i < length ?A"
      by simp
    moreover from kinds [OF that(2)] that(4) have "\<not> is_pattern_flag ((?A @ ?B) ! j)"
      by simp
    with side [OF that(2)] have "\<not> j < length ?A"
      by simp
    ultimately show ?thesis
      by simp
  qed
  have "distinct (?A @ ?B)"
    using pattern_flags_distinct [of "\<lambda>k. rule_count u RULES k d" u d] phrase_flags_distinct [of u d] disj
    by simp
  with len kinds order show ?thesis
    unfolding Let_def fl by blast
qed

theorem flags_bound_and_order_witness:
  "(let fl = flags (snd (fst (apply_guardrails ascii_db (ustr ''in 2 days i am an ai'') []))) in
      fl = [ustr ''hallucinated_timeline: matched 1 occurrence(s)'',
            ustr ''blocked_phrase: '' @ [39] @ ustr ''i am an ai'' @ [39]]
      \<and> distinct fl \<and> length fl \<le> 9
      \<and> is_pattern_flag (fl ! 0) \<and> \<not> is_phrase_flag (fl ! 0)
      \<and> is_phrase_flag (fl ! 1) \<and> \<not> is_pattern_flag (fl ! 1))"
proof -
  have e: "flags (snd (fst (apply_guardrails ascii_db (ustr ''in 2 days i am an ai'') []))) =
      [ustr ''hallucinated_timeline: matched 1 occurrence(s)'',
       ustr ''blocked_phrase: '' @ [39] @ ustr ''i am an ai'' @ [39]]"
    by code_simp
  have k: "is_pattern_flag (ustr ''hallucinated_timeline: matched 1 occurrence(s)'')"
    "\<not> is_phrase_flag (ustr ''hallucinated_timeline: matched 1 occurrence(s)'')"
    "is_phrase_flag (ustr ''blocked_phrase: '' @ [39] @ ustr ''i am an ai'' @ [39])"
    "\<not> is_pattern_flag (ustr ''blocked_phrase: '' @ [39] @ ustr ''i am an ai'' @ [39])"
    by code_simp+
  from flags_bound_and_order [of ascii_db "ustr ''in 2 days i am an ai''" "[]"] k
  show ?thesis
    unfolding Let_def e by simp
qed

section \<open>The whitespace step\<close>

text \<open>
  The last step of \<open>apply_guardrails\<close> replaces runs of one character. The run of
  \<open>c\<close> at the start of a text, and what comes after it:
\<close>

abbreviation (input) run_of :: "codepoint \<Rightarrow> pystr \<Rightarrow> pystr" where
  "run_of c s \<equiv> takeWhile (\<lambda>x. x = c) s"

abbreviation (input) after_run :: "codepoint \<Rightarrow> pystr \<Rightarrow> pystr" where
  "after_run c s \<equiv> dropWhile (\<lambda>x. x = c) s"

lemma ms_repeat_literal_Nil:
  "ms u (Max_Repeat lo None (Literal c)) (prev, []) = (if lo = 0 then [(prev, [])] else [])"
  by (subst ms.simps(8)) simp

lemma ms_repeat_literal_Cons:
  "ms u (Max_Repeat lo None (Literal c)) (prev, x # xs) =
     (if x = c then ms u (Max_Repeat (lo - 1) None (Literal c)) (Some c, xs) else [])
     @ (if lo = 0 then [(prev, x # xs)] else [])"
  by (subst ms.simps(8)) simp

lemmas ms_repeat_literal = ms_repeat_literal_Nil ms_repeat_literal_Cons

lemma ms_repeat_literal_none:
  "length (run_of c rest) < lo \<Longrightarrow> ms u (Max_Repeat lo None (Literal c)) (prev, rest) = []"
proof (induction rest arbitrary: lo prev)
  case Nil
  then show ?case by (simp add: ms_repeat_literal)
next
  case (Cons x xs)
  show ?case
  proof (cases "x = c")
    case False
    with Cons.prems show ?thesis by (simp add: ms_repeat_literal)
  next
    case True
    with Cons.prems have "length (run_of c xs) < lo - 1" "lo \<noteq> 0"
      by auto
    with Cons.IH [of "lo - 1" "Some c"] True show ?thesis
      by (simp add: ms_repeat_literal)
  qed
qed

lemma ms_repeat_literal_zero:
  "run_of c rest = [] \<Longrightarrow> ms u (Max_Repeat 0 None (Literal c)) (prev, rest) = [(prev, rest)]"
  by (cases rest) (auto simp: ms_repeat_literal split: if_splits)

lemma ms_repeat_literal_hd:
  "lo \<le> length (run_of c rest) \<Longrightarrow> run_of c rest \<noteq> [] \<Longrightarrow>
   \<exists>es. ms u (Max_Repeat lo None (Literal c)) (prev, rest) = (Some c, after_run c rest) # es"
proof (induction rest arbitrary: lo prev)
  case Nil
  then show ?case by simp
next
  case (Cons x xs)
  from Cons.prems(2) have x: "x = c"
    by (simp split: if_splits)
  have unfold: "ms u (Max_Repeat lo None (Literal c)) (prev, c # xs) =
      ms u (Max_Repeat (lo - 1) None (Literal c)) (Some c, xs)
      @ (if lo = 0 then [(prev, c # xs)] else [])"
    by (simp add: ms_repeat_literal)
  show ?case
  proof (cases "run_of c xs = []")
    case True
    with Cons.prems(1) x have "lo - 1 = 0"
      by simp
    with True x unfold show ?thesis
      by (cases xs) (auto simp: ms_repeat_literal_zero split: if_splits)
  next
    case False
    from Cons.prems(1) x have "lo - 1 \<le> length (run_of c xs)"
      by simp
    from Cons.IH [OF this False, of "Some c"] x unfold show ?thesis
      by auto
  qed
qed

lemma ms_repeat_literal_consumes:
  "st' \<in> set (ms u (Max_Repeat lo None (Literal c)) (prev, rest)) \<Longrightarrow>
   length (snd st') + lo \<le> length rest"
proof (induction rest arbitrary: lo prev)
  case Nil
  then show ?case by (auto simp: ms_repeat_literal split: if_splits)
next
  case (Cons x xs)
  show ?case
  proof (cases "x = c")
    case False
    with Cons.prems show ?thesis by (auto simp: ms_repeat_literal split: if_splits)
  next
    case True
    from Cons.prems True have
      "st' \<in> set (ms u (Max_Repeat (lo - 1) None (Literal c)) (Some c, xs)) \<or> (lo = 0 \<and> st' = (prev, c # xs))"
      by (auto simp: ms_repeat_literal split: if_splits)
    then show ?thesis
    proof
      assume "st' \<in> set (ms u (Max_Repeat (lo - 1) None (Literal c)) (Some c, xs))"
      from Cons.IH [OF this] show ?thesis by simp
    next
      assume "lo = 0 \<and> st' = (prev, c # xs)"
      with True show ?thesis by simp
    qed
  qed
qed


lemma first_match_hd:
  assumes "ms u r st = e # es" and "length (snd e) \<noteq> length (snd st)"
  shows "first_match u r adv st = Some e"
  using assms by (simp add: first_match_def)

lemma first_match_Nil: "ms u r st = [] \<Longrightarrow> first_match u r adv st = None"
  by (simp add: first_match_def)

lemma after_run_shorter: "run_of c rest \<noteq> [] \<Longrightarrow> length (after_run c rest) < length rest"
  by (cases rest) (auto simp: length_dropWhile_le less_Suc_eq_le split: if_splits)

lemma first_match_newlines:
  "first_match u newlines_pattern adv (prev, rest) =
     (if 3 \<le> length (run_of 10 rest) then Some (Some 10, after_run 10 rest) else None)"
proof (cases "3 \<le> length (run_of 10 rest)")
  case True
  then have ne: "run_of 10 rest \<noteq> []"
    by auto
  from ms_repeat_literal_hd [OF True ne] obtain es where
    "ms u newlines_pattern (prev, rest) = (Some 10, after_run 10 rest) # es"
    unfolding newlines_pattern_def by blast
  from first_match_hd [OF this] after_run_shorter [OF ne] True show ?thesis
    by simp
next
  case False
  then have "ms u newlines_pattern (prev, rest) = []"
    unfolding newlines_pattern_def by (simp add: ms_repeat_literal_none)
  with False show ?thesis
    by (simp add: first_match_Nil)
qed

lemma first_match_spaces:
  "first_match u spaces_pattern adv (prev, rest) =
     (if 2 \<le> length (run_of 32 rest) then Some (Some 32, after_run 32 rest) else None)"
proof (cases "2 \<le> length (run_of 32 rest)")
  case True
  then obtain xs where rest: "rest = 32 # xs" and xs: "1 \<le> length (run_of 32 xs)"
    by (cases rest) (auto split: if_splits)
  from xs have ne: "run_of 32 xs \<noteq> []"
    by auto
  from ms_repeat_literal_hd [OF xs ne] obtain es where
    "ms u (Max_Repeat 1 None (Literal 32)) (Some 32, xs) = (Some 32, after_run 32 xs) # es"
    by blast
  then have "ms u spaces_pattern (prev, rest) = (Some 32, after_run 32 rest) # es"
    by (simp add: spaces_pattern_def rep_plus_def rest)
  from first_match_hd [OF this] after_run_shorter [OF ne] True rest show ?thesis
    by simp
next
  case False
  have "ms u spaces_pattern (prev, rest) = []"
  proof (cases rest)
    case Nil
    then show ?thesis by (simp add: spaces_pattern_def rep_plus_def)
  next
    case (Cons x xs)
    show ?thesis
    proof (cases "x = 32")
      case True
      from False Cons True have "\<not> 2 \<le> Suc (length (run_of 32 xs))"
        by simp
      then have "length (run_of 32 xs) < 1"
        by arith
      from ms_repeat_literal_none [OF this, of u "Some 32"] True Cons show ?thesis
        by (simp add: spaces_pattern_def rep_plus_def)
    next
      case False
      with Cons show ?thesis
        by (simp add: spaces_pattern_def rep_plus_def)
    qed
  qed
  with False show ?thesis
    by (simp add: first_match_Nil)
qed

text \<open>
  What replacing the long runs of one character comes to: a run of \<open>c\<close> of length
  \<open>lo\<close> or more gives way to \<open>repl\<close>, everything else is copied.
\<close>

function squeeze :: "codepoint \<Rightarrow> nat \<Rightarrow> pystr \<Rightarrow> pystr \<Rightarrow> pystr" where
  "squeeze c lo repl [] = []"
| "squeeze c lo repl (x # xs) =
     (if x = c \<and> lo \<le> length (takeWhile (\<lambda>y. y = c) (x # xs))
      then repl @ squeeze c lo repl (dropWhile (\<lambda>y. y = c) xs)
      else x # squeeze c lo repl xs)"
  by pat_completeness auto
termination
  by (relation "measure (\<lambda>(c, lo, repl, s). length s)") (auto simp: length_dropWhile_le less_Suc_eq_le)

lemma sub_loop_squeeze:
  assumes fm: "\<And>adv prev rest. first_match u r adv (prev, rest) =
     (if lo \<le> length (run_of c rest) then Some (Some c, after_run c rest) else None)"
    and lo: "0 < lo"
  shows "sub_loop u r repl prev rest adv = squeeze c lo repl rest"
proof (induction rest arbitrary: prev adv rule: length_induct)
  case (1 rest)
  show ?case
  proof (cases rest)
    case Nil
    with lo show ?thesis
      by (subst sub_loop.simps) (simp add: fm)
  next
    case (Cons x xs)
    show ?thesis
    proof (cases "x = c \<and> lo \<le> length (run_of c (x # xs))")
      case True
      then have xc: "x = c" and run: "lo \<le> Suc (length (run_of c xs))"
        by auto
      then have "first_match u r adv (prev, x # xs) = Some (Some c, after_run c xs)"
        by (simp add: fm)
      moreover have shorter: "length (after_run c xs) < length (x # xs)"
        using length_dropWhile_le [of "\<lambda>y. y = c" xs] by simp
      ultimately have "sub_loop u r repl prev (x # xs) adv =
          repl @ sub_loop u r repl (Some c) (after_run c xs) False"
        by (subst sub_loop.simps) simp
      moreover from "1.IH" shorter Cons
      have "sub_loop u r repl (Some c) (after_run c xs) False = squeeze c lo repl (after_run c xs)"
        by simp
      ultimately show ?thesis
        using xc run Cons by simp
    next
      case False
      with lo have "first_match u r adv (prev, x # xs) = None"
        by (auto simp: fm)
      then have "sub_loop u r repl prev (x # xs) adv = x # sub_loop u r repl (Some x) xs False"
        by (subst sub_loop.simps) simp
      moreover from "1.IH" Cons
      have "sub_loop u r repl (Some x) xs False = squeeze c lo repl xs"
        by simp
      ultimately show ?thesis
        using False Cons by simp
    qed
  qed
qed

lemma sub_spaces: "sub u spaces_pattern repl s = squeeze 32 2 repl s"
  unfolding sub_def by (rule sub_loop_squeeze) (simp_all add: first_match_spaces)

lemma sub_newlines: "sub u newlines_pattern repl s = squeeze 10 3 repl s"
  unfolding sub_def by (rule sub_loop_squeeze) (simp_all add: first_match_newlines)

text \<open>A run of \<open>k\<close> characters \<open>c\<close> in a row, somewhere in a text.\<close>

lemma prefix_replicate_run: "prefix (replicate k c) s \<longleftrightarrow> k \<le> length (run_of c s)"
proof (induction s arbitrary: k)
  case Nil
  show ?case by simp
next
  case (Cons x xs)
  show ?case
    by (cases k) (auto simp: Cons.IH)
qed

lemma sublist_replicate_Cons:
  "sublist (replicate k c) (x # xs) \<longleftrightarrow>
     k \<le> length (run_of c (x # xs)) \<or> sublist (replicate k c) xs"
  by (simp only: sublist_Cons_right prefix_replicate_run)

lemma run_after_run: "run_of c (after_run c s) = []"
proof (cases "after_run c s = []")
  case True
  show ?thesis unfolding True by simp
next
  case False
  from hd_dropWhile [OF this] show ?thesis
    by (simp add: takeWhile_eq_Nil_iff)
qed

lemma squeeze_Cons_hit:
  "lo \<le> Suc (length (run_of c xs)) \<Longrightarrow>
   squeeze c lo repl (c # xs) = repl @ squeeze c lo repl (after_run c xs)"
  by simp

lemma squeeze_Cons_miss:
  "\<not> (x = c \<and> lo \<le> length (run_of c (x # xs))) \<Longrightarrow>
   squeeze c lo repl (x # xs) = x # squeeze c lo repl xs"
  by simp

declare squeeze.simps(2) [simp del]

lemma squeeze_cases:
  obtains (empty) "s = []"
  | (hit) xs where "s = c # xs" "lo \<le> Suc (length (run_of c xs))"
  | (miss) x xs where "s = x # xs" "\<not> (x = c \<and> lo \<le> length (run_of c (x # xs)))"
proof (cases s)
  case Nil
  then show ?thesis by (rule empty)
next
  case (Cons x xs)
  show ?thesis
  proof (cases "x = c \<and> lo \<le> length (run_of c (x # xs))")
    case True
    with Cons show ?thesis by (intro hit [of xs]) auto
  next
    case False
    with Cons show ?thesis by (intro miss [of x xs]) auto
  qed
qed

lemma squeeze_run:
  assumes "0 < m" "m < lo"
  shows "run_of c (squeeze c lo (replicate m c) s) =
     (if lo \<le> length (run_of c s) then replicate m c else run_of c s)"
proof (induction s rule: length_induct)
  case (1 s)
  show ?case
  proof (cases rule: squeeze_cases [where s = s and c = c and lo = lo])
    case empty
    with assms show ?thesis by simp
  next
    case (hit xs)
    from "1.IH" hit(1) have "run_of c (squeeze c lo (replicate m c) (after_run c xs)) =
        (if lo \<le> length (run_of c (after_run c xs)) then replicate m c
         else run_of c (after_run c xs))"
      using length_dropWhile_le [of "\<lambda>x. x = c" xs] by simp
    with assms have "run_of c (squeeze c lo (replicate m c) (after_run c xs)) = []"
      by (simp add: run_after_run)
    with hit show ?thesis
      by (simp add: squeeze_Cons_hit takeWhile_append)
  next
    case (miss x xs)
    from "1.IH" miss(1) have IH: "run_of c (squeeze c lo (replicate m c) xs) =
        (if lo \<le> length (run_of c xs) then replicate m c else run_of c xs)"
      by simp
    show ?thesis
    proof (cases "x = c")
      case True
      with miss(2) have "\<not> lo \<le> Suc (length (run_of c xs))"
        by simp
      with True IH miss show ?thesis
        by (simp add: squeeze_Cons_miss)
    next
      case False
      with miss assms show ?thesis
        by (simp add: squeeze_Cons_miss)
    qed
  qed
qed

lemma squeeze_run_short:
  assumes "0 < m" "m < lo"
  shows "length (run_of c (squeeze c lo (replicate m c) s)) < lo"
  using assms by (simp add: squeeze_run)

lemma sublist_replicate_append:
  assumes "run_of c z = []" "m < lo" "sublist (replicate lo c) (replicate m c @ z)"
  shows "sublist (replicate lo c) z"
  using assms(2,3)
proof (induction m)
  case 0
  then show ?case by simp
next
  case (Suc m)
  from Suc.prems(2) have "lo \<le> length (run_of c (c # replicate m c @ z))
      \<or> sublist (replicate lo c) (replicate m c @ z)"
    by (simp add: sublist_replicate_Cons)
  moreover have "length (run_of c (c # replicate m c @ z)) = Suc m"
    using assms(1) by (simp add: takeWhile_append)
  ultimately have "sublist (replicate lo c) (replicate m c @ z)"
    using Suc.prems(1) by simp
  with Suc.IH Suc.prems(1) show ?case
    by simp
qed

lemma squeeze_no_long_run:
  assumes "0 < m" "m < lo"
  shows "\<not> sublist (replicate lo c) (squeeze c lo (replicate m c) s)"
proof (induction s rule: length_induct)
  case (1 s)
  show ?case
  proof (cases rule: squeeze_cases [where s = s and c = c and lo = lo])
    case empty
    with assms show ?thesis by simp
  next
    case (hit xs)
    let ?z = "squeeze c lo (replicate m c) (after_run c xs)"
    from "1.IH" hit(1) have IH: "\<not> sublist (replicate lo c) ?z"
      using length_dropWhile_le [of "\<lambda>x. x = c" xs] by simp
    have "run_of c ?z = []"
      using assms by (simp add: squeeze_run run_after_run)
    from sublist_replicate_append [OF this assms(2)] IH
    have "\<not> sublist (replicate lo c) (replicate m c @ ?z)"
      by blast
    with hit show ?thesis
      by (simp add: squeeze_Cons_hit)
  next
    case (miss x xs)
    from "1.IH" miss(1) have IH: "\<not> sublist (replicate lo c) (squeeze c lo (replicate m c) xs)"
      by simp
    from miss have eq: "squeeze c lo (replicate m c) s = x # squeeze c lo (replicate m c) xs"
      by (simp add: squeeze_Cons_miss)
    have "\<not> lo \<le> length (run_of c (x # squeeze c lo (replicate m c) xs))"
      using squeeze_run_short [OF assms, of c s] unfolding eq by simp
    with IH show ?thesis
      unfolding eq sublist_replicate_Cons by simp
  qed
qed


lemma squeeze_other_run:
  assumes "c' \<noteq> c" "0 < m"
  shows "run_of c' (squeeze c lo (replicate m c) s) = run_of c' s"
proof (induction s)
  case Nil
  show ?case by simp
next
  case (Cons x xs)
  show ?case
  proof (cases "x = c \<and> lo \<le> length (run_of c (x # xs))")
    case True
    then have x: "x = c" and "lo \<le> Suc (length (run_of c xs))"
      by auto
    then have "squeeze c lo (replicate m c) (x # xs) =
        replicate m c @ squeeze c lo (replicate m c) (after_run c xs)"
      by (simp add: squeeze_Cons_hit)
    moreover from assms(2) obtain k where "m = Suc k"
      by (cases m) auto
    ultimately show ?thesis
      using assms(1) x by simp
  next
    case False
    then show ?thesis
      by (simp add: squeeze_Cons_miss Cons.IH)
  qed
qed

lemma sublist_other_append:
  assumes "c' \<noteq> (c :: codepoint)" "0 < k" "sublist (replicate k c') (replicate m c @ z)"
  shows "sublist (replicate k c') z"
  using assms(3)
proof (induction m)
  case 0
  then show ?case by simp
next
  case (Suc m)
  from Suc.prems have "sublist (replicate k c') (c # (replicate m c @ z))"
    by simp
  then have "k \<le> length (run_of c' (c # (replicate m c @ z)))
      \<or> sublist (replicate k c') (replicate m c @ z)"
    by (rule iffD1 [OF sublist_replicate_Cons])
  moreover from assms(1) have "run_of c' (c # (replicate m c @ z)) = []"
    by simp
  ultimately have "sublist (replicate k c') (replicate m c @ z)"
    using assms(2) by simp
  then show ?case
    by (rule Suc.IH)
qed

lemma sublist_trans: "sublist xs ys \<Longrightarrow> sublist ys zs \<Longrightarrow> sublist xs zs"
proof -
  assume "sublist xs ys" "sublist ys zs"
  then obtain ps ss ps' ss' where "ys = ps @ xs @ ss" "zs = ps' @ ys @ ss'"
    unfolding sublist_def by blast
  then have "zs = (ps' @ ps) @ xs @ (ss @ ss')"
    by simp
  then show ?thesis
    unfolding sublist_def by blast
qed

lemma squeeze_other_runs:
  assumes "c' \<noteq> c" "0 < m" "0 < k"
  shows "sublist (replicate k c') (squeeze c lo (replicate m c) s) \<Longrightarrow> sublist (replicate k c') s"
proof (induction s rule: length_induct)
  case (1 s)
  show ?case
  proof (cases rule: squeeze_cases [where s = s and c = c and lo = lo])
    case empty
    with "1.prems" show ?thesis by simp
  next
    case (hit xs)
    with "1.prems" have "sublist (replicate k c')
        (replicate m c @ squeeze c lo (replicate m c) (after_run c xs))"
      by (simp add: squeeze_Cons_hit)
    from sublist_other_append [OF assms(1,3) this]
    have "sublist (replicate k c') (squeeze c lo (replicate m c) (after_run c xs))" .
    moreover from hit(1) have "length (after_run c xs) < length s"
      using length_dropWhile_le [of "\<lambda>x. x = c" xs] by simp
    ultimately have "sublist (replicate k c') (after_run c xs)"
      using "1.IH" by blast
    moreover have "sublist (after_run c xs) s"
      unfolding hit(1) by (rule sublist_trans [of _ xs]) (simp_all add: sublist_Cons_right)
    ultimately show ?thesis
      by (rule sublist_trans)
  next
    case (miss x xs)
    then have eq: "squeeze c lo (replicate m c) s = x # squeeze c lo (replicate m c) xs"
      by (simp add: squeeze_Cons_miss)
    from "1.prems" have "k \<le> length (run_of c' (squeeze c lo (replicate m c) s))
        \<or> sublist (replicate k c') (squeeze c lo (replicate m c) xs)"
      unfolding eq sublist_replicate_Cons by (simp only: eq [symmetric])
    then show ?thesis
    proof
      assume "k \<le> length (run_of c' (squeeze c lo (replicate m c) s))"
      then have "k \<le> length (run_of c' s)"
        by (simp only: squeeze_other_run [OF assms(1,2)])
      then show ?thesis
        unfolding miss(1) sublist_replicate_Cons by simp
    next
      assume "sublist (replicate k c') (squeeze c lo (replicate m c) xs)"
      with "1.IH" miss(1) have "sublist (replicate k c') xs"
        by simp
      then show ?thesis
        unfolding miss(1) sublist_replicate_Cons by simp
    qed
  qed
qed

lemma squeeze_Nil_iff: "0 < m \<Longrightarrow> squeeze c lo (replicate m c) s = [] \<longleftrightarrow> s = []"
  by (cases rule: squeeze_cases [where s = s and c = c and lo = lo])
     (auto simp: squeeze_Cons_hit squeeze_Cons_miss)

lemma squeeze_hd: "0 < m \<Longrightarrow> hd (squeeze c lo (replicate m c) s) = hd s"
  by (cases rule: squeeze_cases [where s = s and c = c and lo = lo])
     (auto simp: squeeze_Cons_hit squeeze_Cons_miss hd_append)

lemma last_after_run: "after_run c xs \<noteq> [] \<Longrightarrow> last (after_run c xs) = last xs"
proof -
  assume ne: "after_run c xs \<noteq> []"
  have "last xs = last (run_of c xs @ after_run c xs)"
    by simp
  also from ne have "\<dots> = last (after_run c xs)"
    by (rule last_appendR)
  finally show ?thesis by simp
qed

lemma squeeze_last:
  assumes "0 < m"
  shows "last (squeeze c lo (replicate m c) s) = last s"
proof (induction s rule: length_induct)
  case (1 s)
  show ?case
  proof (cases rule: squeeze_cases [where s = s and c = c and lo = lo])
    case empty
    then show ?thesis by simp
  next
    case (hit xs)
    let ?z = "squeeze c lo (replicate m c) (after_run c xs)"
    from hit have eq: "squeeze c lo (replicate m c) s = replicate m c @ ?z"
      by (simp add: squeeze_Cons_hit)
    show ?thesis
    proof (cases "after_run c xs = []")
      case True
      then have "\<forall>x\<in>set xs. x = c"
        by simp
      then have "last (c # xs) = c"
        by (cases "xs = []") auto
      moreover have "?z = []"
        unfolding True by simp
      ultimately show ?thesis
        using assms hit(1) unfolding eq by simp
    next
      case False
      with assms have z: "?z \<noteq> []"
        by (simp add: squeeze_Nil_iff)
      from hit(1) have "length (after_run c xs) < length s"
        using length_dropWhile_le [of "\<lambda>x. x = c" xs] by simp
      with "1.IH" have "last ?z = last (after_run c xs)"
        by blast
      moreover from False have "xs \<noteq> []"
        by auto
      ultimately show ?thesis
        using z False hit(1) unfolding eq by (simp add: last_after_run)
    qed
  next
    case (miss x xs)
    then have eq: "squeeze c lo (replicate m c) s = x # squeeze c lo (replicate m c) xs"
      by (simp add: squeeze_Cons_miss)
    from "1.IH" miss(1) have "last (squeeze c lo (replicate m c) xs) = last xs"
      by simp
    with assms miss(1) show ?thesis
      unfolding eq by (simp add: squeeze_Nil_iff)
  qed
qed

lemma squeeze_id:
  assumes "0 < lo"
  shows "\<not> sublist (replicate lo c) s \<Longrightarrow> squeeze c lo repl s = s"
proof (induction s)
  case Nil
  show ?case by simp
next
  case (Cons x xs)
  from Cons.prems have "\<not> lo \<le> length (run_of c (x # xs))" "\<not> sublist (replicate lo c) xs"
    by (simp_all add: sublist_replicate_Cons)
  with Cons.IH show ?case
    by (simp add: squeeze_Cons_miss)
qed

text \<open>A text is trimmed when \<open>strip\<close> leaves it as it is.\<close>

lemma strip_id_iff:
  "strip u s = s \<longleftrightarrow> s = [] \<or> (\<not> u_space u (hd s) \<and> \<not> u_space u (last s))"
proof (cases "s = []")
  case True
  then show ?thesis by (simp add: strip_def)
next
  case False
  let ?P = "u_space u"
  show ?thesis
  proof (cases "?P (hd s)")
    case True
    with False have "length (dropWhile ?P s) < length s"
      by (cases s) (auto simp: length_dropWhile_le less_Suc_eq_le)
    moreover have "length (strip u s) \<le> length (dropWhile ?P s)"
      using length_dropWhile_le [of ?P "rev (dropWhile ?P s)"] by (simp add: strip_def)
    ultimately have "strip u s \<noteq> s"
      by auto
    with True False show ?thesis
      by simp
  next
    case hd: False
    with False have d: "dropWhile ?P s = s"
      by (simp add: dropWhile_eq_self_iff)
    show ?thesis
    proof (cases "?P (last s)")
      case True
      with False have "length (dropWhile ?P (rev s)) < length (rev s)"
        by (cases "rev s") (auto simp: length_dropWhile_le less_Suc_eq_le last_rev hd_rev)
      then have "length (strip u s) < length s"
        by (simp add: strip_def d)
      then have "strip u s \<noteq> s"
        by auto
      with True False show ?thesis
        by simp
    next
      case last: False
      with False have "dropWhile ?P (rev s) = rev s"
        by (simp add: dropWhile_eq_self_iff hd_rev)
      with hd last False show ?thesis
        by (simp add: strip_def d)
    qed
  qed
qed

lemma strip_trimmed: "strip u (strip u s) = strip u s"
proof (cases "strip u s = []")
  case True
  show ?thesis unfolding True by (simp add: strip_def)
next
  case False
  let ?P = "u_space u"
  let ?t = "dropWhile ?P s"
  let ?w = "dropWhile ?P (rev ?t)"
  from False have w: "?w \<noteq> []"
    by (simp add: strip_def)
  have t: "?t \<noteq> []"
  proof
    assume "?t = []"
    then have "?w = []"
      by (simp only: rev.simps dropWhile.simps)
    with w show False
      by (rule notE)
  qed
  have "last ?w = last (rev ?t)"
  proof -
    have "last (rev ?t) = last (takeWhile ?P (rev ?t) @ ?w)"
      by simp
    also from w have "\<dots> = last ?w"
      by (rule last_appendR)
    finally show ?thesis by simp
  qed
  with t have "hd (strip u s) = hd ?t"
    using w by (simp add: strip_def hd_rev last_rev)
  with hd_dropWhile [OF t] have "\<not> ?P (hd (strip u s))"
    by simp
  moreover from hd_dropWhile [OF w] w have "\<not> ?P (last (strip u s))"
    by (simp add: strip_def last_rev)
  ultimately show ?thesis
    by (simp add: strip_id_iff)
qed

lemma sublist_strip: "sublist (strip u s) s"
proof -
  have "suffix (dropWhile (u_space u) s) s"
    by (rule suffix_dropWhile)
  moreover have "prefix (strip u s) (dropWhile (u_space u) s)"
  proof -
    have "suffix (dropWhile (u_space u) (rev (dropWhile (u_space u) s))) (rev (dropWhile (u_space u) s))"
      by (rule suffix_dropWhile)
    then show ?thesis
      by (simp add: strip_def suffix_to_prefix)
  qed
  ultimately show ?thesis
    unfolding sublist_altdef' by blast
qed


text \<open>The value of \<open>cleaned\<close> once the phrases \<open>ps\<close> have run on the text \<open>cl\<close>.\<close>

definition text_after_phrases ::
  "unicode_db \<Rightarrow> pystr \<Rightarrow> (pystr \<times> pystr) list \<Rightarrow> pystr \<Rightarrow> pystr" where
  "text_after_phrases u low ps cl =
     fst (snd (snd (phrases_loop u low ps ([], [], cl, []))))"

lemma phrases_loop_cleaned:
  "fst (snd (snd (phrases_loop u low ps (fl, mods, cl, lg)))) = text_after_phrases u low ps cl"
proof (induction ps arbitrary: fl mods cl lg)
  case Nil
  show ?case by (simp add: text_after_phrases_def)
next
  case (Cons a ps)
  obtain phrase repl where a: "a = (phrase, repl)"
    by (cases a) auto
  show ?case
  proof (cases "py_in phrase low")
    case True
    let ?c = "sub u (escape_ignore phrase) repl cl"
    have "fst (snd (snd (phrases_loop u low (a # ps) (fl, mods, cl, lg)))) =
        text_after_phrases u low ps ?c"
      using True by (simp add: a Cons.IH)
    moreover have "text_after_phrases u low (a # ps) cl = text_after_phrases u low ps ?c"
      using True Cons.IH [of "[phrase_flag phrase]" "[phrase_modification phrase]" ?c "[phrase_log phrase]"]
      by (simp add: a text_after_phrases_def)
    ultimately show ?thesis
      by simp
  next
    case False
    have "fst (snd (snd (phrases_loop u low (a # ps) (fl, mods, cl, lg)))) =
        text_after_phrases u low ps cl"
      using False by (simp add: a Cons.IH)
    moreover have "text_after_phrases u low (a # ps) cl = text_after_phrases u low ps cl"
      using False by (simp add: a text_after_phrases_def)
    ultimately show ?thesis
      by simp
  qed
qed

text \<open>The text that reaches the whitespace step.\<close>

definition text_before_whitespace :: "unicode_db \<Rightarrow> pystr \<Rightarrow> pystr" where
  "text_before_whitespace u d =
     text_after_phrases u (str_lower u (cleaned_after u RULES d)) BLOCKED_PHRASES
       (cleaned_after u RULES d)"

lemma apply_guardrails_cleaned:
  "fst (fst (apply_guardrails u d lg)) =
     squeeze 10 3 (replicate 2 10) (strip u (squeeze 32 2 (replicate 1 32) (text_before_whitespace u d)))"
proof -
  obtain F M cl L where r: "rules_loop u RULES ([], [], d, lg) = (F, M, cl, L)"
    by (cases "rules_loop u RULES ([], [], d, lg)") auto
  obtain F2 M2 cl2 L2 where
    p: "phrases_loop u (str_lower u cl) BLOCKED_PHRASES (F, M, cl, L) = (F2, M2, cl2, L2)"
    by (cases "phrases_loop u (str_lower u cl) BLOCKED_PHRASES (F, M, cl, L)") auto
  from r have cl: "cl = cleaned_after u RULES d"
    by (simp add: rules_loop_acc [of u RULES "[]" "[]" d lg] rules_loop_closed)
  from p phrases_loop_cleaned [of u "str_lower u cl" BLOCKED_PHRASES F M cl L]
  have "cl2 = text_before_whitespace u d"
    by (simp add: cl text_before_whitespace_def)
  with r p show ?thesis
    by (simp add: apply_guardrails_def Let_def sub_spaces sub_newlines numeral_2_eq_2)
qed

text \<open>
  A text is in normal form for the whitespace step when it has no two spaces in a
  row, no three newlines in a row, and no white space at either end.
\<close>

definition ws_normal :: "unicode_db \<Rightarrow> pystr \<Rightarrow> bool" where
  "ws_normal u s = (\<not> py_in [32, 32] s \<and> \<not> py_in [10, 10, 10] s \<and> strip u s = s)"

lemma pair_of_spaces: "[32, 32] = replicate 2 (32 :: codepoint)"
  and triple_of_newlines: "[10, 10, 10] = replicate 3 (10 :: codepoint)"
  by (simp_all add: numeral_2_eq_2 numeral_3_eq_3)

lemma whitespace_step_normal:
  "ws_normal u (squeeze 10 3 (replicate 2 10) (strip u (squeeze 32 2 (replicate 1 32) t)))"
proof -
  let ?t1 = "squeeze 32 2 (replicate 1 32) t"
  let ?t2 = "strip u ?t1"
  let ?t3 = "squeeze 10 3 (replicate 2 10) ?t2"
  have spaces: "\<not> sublist (replicate 2 32) ?t3"
  proof
    assume "sublist (replicate 2 32) ?t3"
    then have "sublist (replicate 2 32) ?t2"
      by (rule squeeze_other_runs [rotated 3]) simp_all
    then have "sublist (replicate 2 32) ?t1"
      using sublist_strip by (rule sublist_trans)
    moreover have "\<not> sublist (replicate 2 32) ?t1"
      by (rule squeeze_no_long_run) simp_all
    ultimately show False
      by simp
  qed
  have newlines: "\<not> sublist (replicate 3 10) ?t3"
    by (rule squeeze_no_long_run) simp_all
  have "strip u ?t2 = ?t2"
    by (rule strip_trimmed)
  then have "?t2 = [] \<or> (\<not> u_space u (hd ?t2) \<and> \<not> u_space u (last ?t2))"
    by (simp only: strip_id_iff)
  then have "?t3 = [] \<or> (\<not> u_space u (hd ?t3) \<and> \<not> u_space u (last ?t3))"
    by (simp add: squeeze_Nil_iff squeeze_hd squeeze_last)
  then have "strip u ?t3 = ?t3"
    by (simp only: strip_id_iff)
  with spaces newlines show ?thesis
    by (simp only: ws_normal_def py_in_def pair_of_spaces triple_of_newlines simp_thms)
qed

lemma whitespace_step_id:
  assumes "ws_normal u s"
  shows "squeeze 10 3 (replicate 2 10) (strip u (squeeze 32 2 (replicate 1 32) s)) = s"
proof -
  from assms have a: "\<not> sublist (replicate 2 32) s" "\<not> sublist (replicate 3 10) s" "strip u s = s"
    by (simp_all add: ws_normal_def py_in_def pair_of_spaces triple_of_newlines)
  from a(1) have "squeeze 32 2 (replicate 1 32) s = s"
    by (rule squeeze_id [rotated]) simp
  moreover from a(2) have "squeeze 10 3 (replicate 2 10) s = s"
    by (rule squeeze_id [rotated]) simp
  ultimately show ?thesis
    using a(3) by simp
qed

text \<open>
  C6. The returned text has no two spaces in a row and no three newlines in a row,
  and \<open>strip\<close> leaves it as it is: it has no white space at either end.
\<close>

theorem whitespace_normalised:
  "(let c = fst (fst (apply_guardrails u d lg)) in
      \<not> py_in [32, 32] c \<and> \<not> py_in [10, 10, 10] c \<and> strip u c = c)"
  using whitespace_step_normal [of u "text_before_whitespace u d"]
  by (simp add: Let_def apply_guardrails_cleaned ws_normal_def)

section \<open>Text without violations\<close>

text \<open>
  A text is clean when no pattern rule finds a match in it and no blocked phrase
  occurs in its lower-cased form.
\<close>

definition clean :: "unicode_db \<Rightarrow> pystr \<Rightarrow> bool" where
  "clean u d =
     (list_all (\<lambda>r. findall u (pattern r) d = []) RULES \<and>
      list_all (\<lambda>(phrase, repl). \<not> py_in phrase (str_lower u d)) BLOCKED_PHRASES)"

lemma rules_loop_clean:
  "list_all (\<lambda>r. findall u (pattern r) cl = []) rs0 \<Longrightarrow>
   rules_loop u rs0 (fl, mods, cl, lg) = (fl, mods, cl, lg)"
  by (induction rs0) simp_all

lemma phrases_loop_clean:
  "list_all (\<lambda>(phrase, repl). \<not> py_in phrase low) ps \<Longrightarrow>
   phrases_loop u low ps (fl, mods, cl, lg) = (fl, mods, cl, lg)"
  by (induction ps) auto

lemma apply_guardrails_clean:
  assumes "clean u d"
  shows "fst (apply_guardrails u d lg) =
     (squeeze 10 3 (replicate 2 10) (strip u (squeeze 32 2 (replicate 1 32) d)),
      \<lparr>passed = True, flags = [], modifications_applied = []\<rparr>)"
  using assms
  by (simp add: clean_def apply_guardrails_def rules_loop_clean phrases_loop_clean
      sub_spaces sub_newlines numeral_2_eq_2)

lemma findall_Nil: "ms u r (None, []) = [] \<Longrightarrow> findall u r [] = []"
  by (simp add: findall_def findall_loop.simps first_match_def)

lemma ms_price_Nil: "ms u price_pattern (None, []) = []"
  by (simp add: price_pattern_def rs_token_def rupee_sign_def amount_def ci_def ustr_def
      lit_ignore_def ascii_upper_def ascii_lower_def ascii_tolower_def rep_plus_def rep_star_def
      rep_opt_def any_space_def any_digit_def ms.simps(8))

lemma ms_boundary_Nil: "ms u (Seq At_Boundary r) (None, []) = []"
  by (simp add: is_word_def)

lemma ms_rules_Nil: "list_all (\<lambda>r. ms u (pattern r) (None, []) = []) RULES"
  by (simp add: RULES_def ms_price_Nil ms_boundary_Nil timeline_pattern_def
      guarantee_pattern_def scare_pattern_def competitor_pattern_def del: ms.simps)

lemma clean_Nil: "clean u []"
proof -
  have "list_all (\<lambda>r. findall u (pattern r) [] = []) RULES"
    using ms_rules_Nil [of u] by (simp add: list_all_iff findall_Nil)
  moreover have "list_all (\<lambda>(phrase, repl). \<not> py_in phrase (str_lower u [])) BLOCKED_PHRASES"
    by (simp add: BLOCKED_PHRASES_def str_lower_def py_in_def ustr_def)
  ultimately show ?thesis
    by (simp add: clean_def)
qed


lemma apply_guardrails_ws_normal: "ws_normal u (fst (fst (apply_guardrails u d lg)))"
  unfolding apply_guardrails_cleaned by (rule whitespace_step_normal)

text \<open>
  C1, as the specification states it, fails: the whitespace step runs on every text,
  so a text without violations that has two spaces in a row comes back changed.
\<close>

theorem no_op_on_clean_text_counterexample:
  "clean ascii_db (ustr ''a  b'') \<and>
   fst (fst (apply_guardrails ascii_db (ustr ''a  b'') [])) = ustr ''a b'' \<and>
   fst (fst (apply_guardrails ascii_db (ustr ''a  b'') [])) \<noteq> ustr ''a  b''"
  by code_simp

text \<open>
  C1, amended. For a text without violations the check passes with no flag and no
  modification, and the returned text is the input after the whitespace step; it is
  the input itself when the input is in normal form for that step. The empty text
  comes back unchanged and passes.
\<close>

theorem no_op_on_clean_text:
  assumes "clean u d"
  shows "fst (apply_guardrails u d lg) =
       (sub u newlines_pattern [10, 10] (strip u (sub u spaces_pattern [32] d)),
        \<lparr>passed = True, flags = [], modifications_applied = []\<rparr>)
     \<and> (ws_normal u d \<longrightarrow> fst (fst (apply_guardrails u d lg)) = d)
     \<and> fst (apply_guardrails u [] lg) =
         ([], \<lparr>passed = True, flags = [], modifications_applied = []\<rparr>)"
proof -
  note c = apply_guardrails_clean [OF assms, of lg]
  have "sub u newlines_pattern [10, 10] (strip u (sub u spaces_pattern [32] d)) =
      squeeze 10 3 (replicate 2 10) (strip u (squeeze 32 2 (replicate 1 32) d))"
    by (simp add: sub_spaces sub_newlines numeral_2_eq_2)
  moreover have "fst (fst (apply_guardrails u d lg)) = d" if "ws_normal u d"
    using c whitespace_step_id [OF that] by simp
  moreover have "fst (apply_guardrails u [] lg) =
      ([], \<lparr>passed = True, flags = [], modifications_applied = []\<rparr>)"
    using apply_guardrails_clean [OF clean_Nil, of u lg] by (simp add: strip_def)
  ultimately show ?thesis
    using c by simp
qed

theorem no_op_on_clean_text_witness:
  "clean ascii_db (ustr ''Thank you!'') \<and> ws_normal ascii_db (ustr ''Thank you!'') \<and>
   fst (apply_guardrails ascii_db (ustr ''Thank you!'') []) =
     (ustr ''Thank you!'', \<lparr>passed = True, flags = [], modifications_applied = []\<rparr>)"
proof -
  have c: "clean ascii_db (ustr ''Thank you!'')"
    by code_simp
  have n: "ws_normal ascii_db (ustr ''Thank you!'')"
    by code_simp
  from no_op_on_clean_text [OF c, of "[]"] n c show ?thesis
    by (auto simp: prod_eq_iff)
qed

text \<open>
  C3, as the specification states it, fails: the whitespace step runs after the
  rules, and what it leaves can match a rule. Here the first run joins two spaces into
  one and passes; the second run finds the scare phrase.
\<close>

theorem idempotence_counterexample:
  "fst (apply_guardrails ascii_db (ustr ''life  threatening situation'') []) =
     (ustr ''life threatening situation'',
      \<lparr>passed = True, flags = [], modifications_applied = []\<rparr>) \<and>
   fst (apply_guardrails ascii_db (ustr ''life threatening situation'') []) =
     (ustr ''(we recommend a professional assessment to evaluate the situation)'',
      \<lparr>passed = False, flags = [ustr ''scare_tactics: matched 1 occurrence(s)''],
       modifications_applied = [ustr ''Replaced scare_tactics matches with safe alternative.'']\<rparr>)"
  by code_simp

text \<open>
  C3, amended. When the text returned by a first run is without violations, a second
  run on it passes and returns it unchanged.
\<close>

theorem idempotent_on_clean_output:
  assumes "clean u (fst (fst (apply_guardrails u d lg)))"
  shows "fst (apply_guardrails u (fst (fst (apply_guardrails u d lg))) lg') =
     (fst (fst (apply_guardrails u d lg)),
      \<lparr>passed = True, flags = [], modifications_applied = []\<rparr>)"
  using apply_guardrails_clean [OF assms, of lg']
    whitespace_step_id [OF apply_guardrails_ws_normal [of u d lg]]
  by simp

theorem idempotent_on_clean_output_witness:
  "fst (fst (apply_guardrails ascii_db (ustr ''in 2 days'') [])) =
     ustr ''(timeline will be confirmed after assessment)'' \<and>
   clean ascii_db (ustr ''(timeline will be confirmed after assessment)'') \<and>
   fst (apply_guardrails ascii_db (ustr ''(timeline will be confirmed after assessment)'') []) =
     (ustr ''(timeline will be confirmed after assessment)'',
      \<lparr>passed = True, flags = [], modifications_applied = []\<rparr>)"
proof -
  have e: "fst (fst (apply_guardrails ascii_db (ustr ''in 2 days'') [])) =
      ustr ''(timeline will be confirmed after assessment)''"
    by code_simp
  have c: "clean ascii_db (ustr ''(timeline will be confirmed after assessment)'')"
    by code_simp
  from idempotent_on_clean_output [of ascii_db "ustr ''in 2 days''" "[]" "[]"] e c
  show ?thesis
    by simp
qed

section \<open>What a substitution replaces\<close>

text \<open>
  \<open>weave gaps found\<close> is the text made of the pieces \<open>gaps\<close> with the pieces
  \<open>found\<close> between them, one after each gap but the last.
\<close>

fun weave :: "pystr list \<Rightarrow> pystr list \<Rightarrow> pystr" where
  "weave [] found = []"
| "weave (g # gs) [] = g"
| "weave (g # gs) (m # found) = g @ m @ weave gs found"

lemma first_match_split:
  assumes "first_match u r adv (prev, rest) = Some (prev', rest')"
  shows "take (length rest - length rest') rest @ rest' = rest"
proof -
  from first_match_set(1) [OF assms] have "suffix rest' rest"
    by (auto dest: ms_suffix)
  then obtain zs where "rest = zs @ rest'"
    unfolding suffix_def by blast
  then show ?thesis
    by simp
qed

lemma loops_weave:
  "\<exists>gaps. length gaps = Suc (length (findall_loop u r prev rest adv))
     \<and> weave gaps (findall_loop u r prev rest adv) = rest
     \<and> weave gaps (map (\<lambda>m. repl) (findall_loop u r prev rest adv))
         = sub_loop u r repl prev rest adv"
proof (induction u r prev rest adv rule: findall_loop.induct)
  case (1 u r prev rest adv)
  show ?case
  proof (cases "first_match u r adv (prev, rest)")
    case (Some e)
    obtain prev' rest' where e: "e = (prev', rest')"
      by (cases e) auto
    let ?m = "take (length rest - length rest') rest"
    let ?adv = "length rest' = length rest"
    from Some e have fm: "first_match u r adv (prev, rest) = Some (prev', rest')"
      by simp
    from "1.IH"(2) [OF Some e [symmetric]] obtain gaps where
      g: "length gaps = Suc (length (findall_loop u r prev' rest' ?adv))"
      "weave gaps (findall_loop u r prev' rest' ?adv) = rest'"
      "weave gaps (map (\<lambda>m. repl) (findall_loop u r prev' rest' ?adv))
        = sub_loop u r repl prev' rest' ?adv"
      by blast
    have f: "findall_loop u r prev rest adv = ?m # findall_loop u r prev' rest' ?adv"
      by (subst findall_loop.simps) (simp add: fm)
    have s: "sub_loop u r repl prev rest adv = repl @ sub_loop u r repl prev' rest' ?adv"
      by (subst sub_loop.simps) (simp add: fm)
    from g(1) obtain g0 gs where gaps: "gaps = g0 # gs"
      by (cases gaps) auto
    have "length ([] # gaps) = Suc (length (findall_loop u r prev rest adv))"
      using g(1) by (simp add: f)
    moreover have "weave ([] # gaps) (findall_loop u r prev rest adv) = rest"
      using g(2) first_match_split [OF fm] by (simp add: f gaps)
    moreover have "weave ([] # gaps) (map (\<lambda>m. repl) (findall_loop u r prev rest adv))
        = sub_loop u r repl prev rest adv"
      using g(3) by (simp add: f s gaps)
    ultimately show ?thesis
      by blast
  next
    case None
    show ?thesis
    proof (cases rest)
      case Nil
      have "findall_loop u r prev rest adv = []"
        by (subst findall_loop.simps) (simp add: None [unfolded Nil] Nil)
      moreover have "sub_loop u r repl prev rest adv = []"
        by (subst sub_loop.simps) (simp add: None [unfolded Nil] Nil)
      ultimately have "length [[]] = Suc (length (findall_loop u r prev rest adv))
          \<and> weave [[]] (findall_loop u r prev rest adv) = rest
          \<and> weave [[]] (map (\<lambda>m. repl) (findall_loop u r prev rest adv))
              = sub_loop u r repl prev rest adv"
        using Nil by simp
      then show ?thesis
        by blast
    next
      case (Cons c cs)
      from "1.IH"(1) [OF None Cons] obtain gaps where
        g: "length gaps = Suc (length (findall_loop u r (Some c) cs False))"
        "weave gaps (findall_loop u r (Some c) cs False) = cs"
        "weave gaps (map (\<lambda>m. repl) (findall_loop u r (Some c) cs False))
          = sub_loop u r repl (Some c) cs False"
        by blast
      have f: "findall_loop u r prev (c # cs) adv = findall_loop u r (Some c) cs False"
        by (subst findall_loop.simps) (simp add: None [unfolded Cons])
      have s: "sub_loop u r repl prev (c # cs) adv = c # sub_loop u r repl (Some c) cs False"
        by (subst sub_loop.simps) (simp add: None [unfolded Cons])
      from g(1) obtain g0 gs where gaps: "gaps = g0 # gs"
        by (cases gaps) auto
      have w: "weave ((c # g0) # gs) found = c # weave (g0 # gs) found" for found
        by (cases found) simp_all
      have "length ((c # g0) # gs) = Suc (length (findall_loop u r prev (c # cs) adv))"
        using g(1) by (simp add: f gaps)
      moreover have "weave ((c # g0) # gs) (findall_loop u r prev (c # cs) adv) = c # cs"
        using g(2) by (simp add: f gaps w)
      moreover have "weave ((c # g0) # gs) (map (\<lambda>m. repl) (findall_loop u r prev (c # cs) adv))
          = sub_loop u r repl prev (c # cs) adv"
        using g(3) by (simp add: f s gaps w)
      ultimately show ?thesis
        unfolding Cons by blast
    qed
  qed
qed

lemma cleaned_after_snoc:
  "cleaned_after u (rs0 @ [r]) d =
     (if findall u (pattern r) (cleaned_after u rs0 d) \<noteq> []
      then sub u (pattern r) (replacement r) (cleaned_after u rs0 d)
      else cleaned_after u rs0 d)"
  by (simp add: cleaned_after_def rules_loop_snoc split: prod.splits)

lemma phrases_loop_append:
  "phrases_loop u low (ps1 @ ps2) st = phrases_loop u low ps2 (phrases_loop u low ps1 st)"
proof (induction ps1 arbitrary: st)
  case Nil
  show ?case by simp
next
  case (Cons a ps1)
  obtain phrase repl where a: "a = (phrase, repl)"
    by (cases a) auto
  obtain fl mods cl lg where st: "st = (fl, mods, cl, lg)"
    by (cases st) auto
  show ?case
    unfolding a st by (simp add: Cons.IH)
qed

lemma text_after_phrases_snoc:
  "text_after_phrases u low (ps @ [(phrase, repl)]) cl =
     (if py_in phrase low
      then sub u (escape_ignore phrase) repl (text_after_phrases u low ps cl)
      else text_after_phrases u low ps cl)"
proof -
  obtain F M c L where p: "phrases_loop u low ps ([], [], cl, []) = (F, M, c, L)"
    by (cases "phrases_loop u low ps ([], [], cl, [])") auto
  then have c: "text_after_phrases u low ps cl = c"
    by (simp add: text_after_phrases_def)
  show ?thesis
    unfolding c by (simp add: text_after_phrases_def phrases_loop_append p)
qed


text \<open>
  C5, as the specification states it, fails. A substitution makes one pass from left
  to right and its outcome is not scanned again: deleting the inner \<open>i am an ai\<close>
  from \<open>i am an i am an aiai\<close> leaves \<open>i am an ai\<close>. And the whitespace step runs
  after the rules: in the second text only \<open>extremely dangerous\<close> matches the scare
  rule, and joining the two spaces forms a second match, which is returned.
\<close>

theorem replacement_completeness_counterexample:
  "fst (apply_guardrails ascii_db (ustr ''i am an i am an aiai'') []) =
     (ustr ''i am an ai'',
      \<lparr>passed = False,
       flags = [ustr ''blocked_phrase: '' @ [39] @ ustr ''i am an ai'' @ [39]],
       modifications_applied = [ustr ''Removed blocked phrase: '' @ [39] @ ustr ''i am an ai'' @ [39]]\<rparr>) \<and>
   py_in (ustr ''i am an ai'') (str_lower ascii_db (ustr ''i am an ai'')) \<and>
   fst (apply_guardrails ascii_db (ustr ''extremely dangerous life  threatening situation'') []) =
     (ustr ''(we recommend a professional assessment to evaluate the situation) life threatening situation'',
      \<lparr>passed = False,
       flags = [ustr ''scare_tactics: matched 1 occurrence(s)''],
       modifications_applied = [ustr ''Replaced scare_tactics matches with safe alternative.'']\<rparr>) \<and>
   findall ascii_db scare_pattern
     (ustr ''(we recommend a professional assessment to evaluate the situation) life threatening situation'') =
     [ustr ''life threatening situation'']"
  by code_simp

text \<open>
  C5, amended. A substitution replaces every occurrence its scan finds in the text it
  is given: the text is the found occurrences with gaps between them, and the outcome
  is the same gaps with the replacement in the place of each occurrence. A pattern
  rule that triggers applies this substitution to the text left by the rules before
  it, and a phrase that triggers applies it to the text left by the phrases before it.
  Nothing is said about occurrences that come into being later.
\<close>

theorem found_occurrences_replaced:
  "(\<exists>gaps. length gaps = Suc (length (findall u r s))
       \<and> weave gaps (findall u r s) = s
       \<and> weave gaps (map (\<lambda>m. repl) (findall u r s)) = sub u r repl s)
   \<and> (k \<in> set (triggered_rules u RULES d) \<longrightarrow>
        cleaned_after u (take (Suc k) RULES) d =
          sub u (pattern (RULES ! k)) (replacement (RULES ! k)) (cleaned_after u (take k RULES) d))
   \<and> (j < length BLOCKED_PHRASES \<and> py_in (fst (BLOCKED_PHRASES ! j)) low \<longrightarrow>
        text_after_phrases u low (take (Suc j) BLOCKED_PHRASES) t =
          sub u (escape_ignore (fst (BLOCKED_PHRASES ! j))) (snd (BLOCKED_PHRASES ! j))
            (text_after_phrases u low (take j BLOCKED_PHRASES) t))"
proof (intro conjI impI)
  show "\<exists>gaps. length gaps = Suc (length (findall u r s))
       \<and> weave gaps (findall u r s) = s
       \<and> weave gaps (map (\<lambda>m. repl) (findall u r s)) = sub u r repl s"
    unfolding findall_def sub_def by (rule loops_weave)
next
  assume k: "k \<in> set (triggered_rules u RULES d)"
  then have b: "k < length RULES"
    by (rule triggered_rules_bound)
  from k have "findall u (pattern (RULES ! k)) (cleaned_after u (take k RULES) d) \<noteq> []"
    by (simp add: triggered_rules_def rule_count_def)
  with b show "cleaned_after u (take (Suc k) RULES) d =
      sub u (pattern (RULES ! k)) (replacement (RULES ! k)) (cleaned_after u (take k RULES) d)"
    by (simp add: take_Suc_conv_app_nth cleaned_after_snoc)
next
  assume j: "j < length BLOCKED_PHRASES \<and> py_in (fst (BLOCKED_PHRASES ! j)) low"
  obtain phrase rp where p: "BLOCKED_PHRASES ! j = (phrase, rp)"
    by (cases "BLOCKED_PHRASES ! j") auto
  with j show "text_after_phrases u low (take (Suc j) BLOCKED_PHRASES) t =
      sub u (escape_ignore (fst (BLOCKED_PHRASES ! j))) (snd (BLOCKED_PHRASES ! j))
        (text_after_phrases u low (take j BLOCKED_PHRASES) t)"
    by (simp add: take_Suc_conv_app_nth text_after_phrases_snoc)
qed

theorem found_occurrences_replaced_witness:
  "1 \<in> set (triggered_rules ascii_db RULES (ustr ''in 2 days'')) \<and>
   cleaned_after ascii_db (take (Suc 1) RULES) (ustr ''in 2 days'') =
     sub ascii_db (pattern (RULES ! 1)) (replacement (RULES ! 1))
       (cleaned_after ascii_db (take 1 RULES) (ustr ''in 2 days'')) \<and>
   0 < length BLOCKED_PHRASES \<and> py_in (fst (BLOCKED_PHRASES ! 0)) (ustr ''i am an ai'') \<and>
   text_after_phrases ascii_db (ustr ''i am an ai'') (take (Suc 0) BLOCKED_PHRASES) (ustr ''I am an AI'') =
     sub ascii_db (escape_ignore (fst (BLOCKED_PHRASES ! 0))) (snd (BLOCKED_PHRASES ! 0))
       (text_after_phrases ascii_db (ustr ''i am an ai'') (take 0 BLOCKED_PHRASES) (ustr ''I am an AI'')) \<and>
   (\<exists>gaps. length gaps = Suc (length (findall ascii_db timeline_pattern (ustr ''in 2 days'')))
       \<and> weave gaps (findall ascii_db timeline_pattern (ustr ''in 2 days'')) = ustr ''in 2 days''
       \<and> weave gaps (map (\<lambda>m. ustr ''(soon)'') (findall ascii_db timeline_pattern (ustr ''in 2 days'')))
           = sub ascii_db timeline_pattern (ustr ''(soon)'') (ustr ''in 2 days''))"
proof -
  have h1: "1 \<in> set (triggered_rules ascii_db RULES (ustr ''in 2 days''))"
    by code_simp
  have h2: "0 < length BLOCKED_PHRASES \<and> py_in (fst (BLOCKED_PHRASES ! 0)) (ustr ''i am an ai'')"
    by code_simp
  from found_occurrences_replaced [of ascii_db timeline_pattern "ustr ''in 2 days''" "ustr ''(soon)''"
      1 "ustr ''in 2 days''" 0 "ustr ''i am an ai''" "ustr ''I am an AI''"] h1 h2
  show ?thesis
    by blast
qed

section \<open>The phrases are looked for in a snapshot\<close>

text \<open>
  C2. The specification has each phrase looked for in the lower-cased form of the
  current text, so that a later phrase sees what the earlier phrases removed. The code
  lower-cases the text once, before the loop over the phrases, and looks every phrase
  up in that copy. Two texts on which this shows:
  \<^item> In \<open>I am an AI don't have access to real-time data\<close> the first phrase ends with
    the \<open>i\<close> the fourth begins with. Once \<open>I am an AI\<close> is removed the fourth phrase
    is not in the text any more, yet it is flagged and recorded as removed, and the
    substitution for it changes nothing.
  \<^item> In \<open>as an ai lani am an aiguage model\<close> removing the first phrase forms the
    second. It is not in the copy, so it is not flagged, and it is returned.
\<close>

theorem phrase_detection_uses_snapshot:
  "fst (apply_guardrails ascii_db
         (ustr ''I am an AI don'' @ [39] @ ustr ''t have access to real-time data'') []) =
     (ustr ''don'' @ [39] @ ustr ''t have access to real-time data'',
      \<lparr>passed = False,
       flags = [ustr ''blocked_phrase: '' @ [39] @ ustr ''i am an ai'' @ [39],
                ustr ''blocked_phrase: '' @ [39] @ ustr ''i don'' @ [39]
                  @ ustr ''t have access to real-time'' @ [39]],
       modifications_applied =
               [ustr ''Removed blocked phrase: '' @ [39] @ ustr ''i am an ai'' @ [39],
                ustr ''Removed blocked phrase: '' @ [39] @ ustr ''i don'' @ [39]
                  @ ustr ''t have access to real-time'' @ [39]]\<rparr>) \<and>
   \<not> py_in (fst (BLOCKED_PHRASES ! 3))
      (str_lower ascii_db
        (text_after_phrases ascii_db
          (str_lower ascii_db (ustr ''I am an AI don'' @ [39] @ ustr ''t have access to real-time data''))
          (take 3 BLOCKED_PHRASES)
          (ustr ''I am an AI don'' @ [39] @ ustr ''t have access to real-time data''))) \<and>
   fst (apply_guardrails ascii_db (ustr ''as an ai lani am an aiguage model'') []) =
     (ustr ''as an ai language model'',
      \<lparr>passed = False,
       flags = [ustr ''blocked_phrase: '' @ [39] @ ustr ''i am an ai'' @ [39]],
       modifications_applied =
               [ustr ''Removed blocked phrase: '' @ [39] @ ustr ''i am an ai'' @ [39]]\<rparr>) \<and>
   py_in (fst (BLOCKED_PHRASES ! 1)) (str_lower ascii_db (ustr ''as an ai language model''))"
  by code_simp

section \<open>Determinism and totality\<close>

lemma apply_guardrails_result:
  "fst (apply_guardrails u d lg) =
     (squeeze 10 3 (replicate 2 10) (strip u (squeeze 32 2 (replicate 1 32) (text_before_whitespace u d))),
      \<lparr>passed =
         (map (\<lambda>k. pattern_flag (name (RULES ! k)) (rule_count u RULES k d)) (triggered_rules u RULES d)
          @ map phrase_flag (triggered_phrases u d) = []),
       flags =
         map (\<lambda>k. pattern_flag (name (RULES ! k)) (rule_count u RULES k d)) (triggered_rules u RULES d)
         @ map phrase_flag (triggered_phrases u d),
       modifications_applied =
         map (\<lambda>k. pattern_modification (name (RULES ! k))) (triggered_rules u RULES d)
         @ map phrase_modification (triggered_phrases u d)\<rparr>)"
proof -
  note c = apply_guardrails_collapse [of u d lg]
  have "snd (fst (apply_guardrails u d lg)) =
      \<lparr>passed = passed (snd (fst (apply_guardrails u d lg))),
       flags = flags (snd (fst (apply_guardrails u d lg))),
       modifications_applied = modifications_applied (snd (fst (apply_guardrails u d lg)))\<rparr>"
    by simp
  then show ?thesis
    unfolding apply_guardrails_passed [OF c] apply_guardrails_flags [OF c]
      apply_guardrails_mods [OF c]
    using apply_guardrails_cleaned [of u d lg] by (simp add: prod_eq_iff)
qed

lemma phrases_loop_logs:
  "snd (snd (snd (phrases_loop u low ps (fl, mods, cl, lg)))) =
     lg @ map phrase_log (filter (\<lambda>p. py_in p low) (map fst ps))"
proof (induction ps arbitrary: fl mods cl lg)
  case Nil
  show ?case by simp
next
  case (Cons a ps)
  obtain phrase repl where a: "a = (phrase, repl)"
    by (cases a) auto
  show ?case
    unfolding a by (simp add: Cons.IH)
qed

lemma apply_guardrails_log:
  "\<exists>final. snd (apply_guardrails u d lg) =
     lg @ map (\<lambda>k. pattern_log (name (RULES ! k)) (rule_count u RULES k d)) (triggered_rules u RULES d)
        @ map phrase_log (triggered_phrases u d) @ [final]"
proof -
  obtain F M cl L where r: "rules_loop u RULES ([], [], d, lg) = (F, M, cl, L)"
    by (cases "rules_loop u RULES ([], [], d, lg)") auto
  obtain F2 M2 cl2 L2 where
    p: "phrases_loop u (str_lower u cl) BLOCKED_PHRASES (F, M, cl, L) = (F2, M2, cl2, L2)"
    by (cases "phrases_loop u (str_lower u cl) BLOCKED_PHRASES (F, M, cl, L)") auto
  from r have L: "L = lg @ map (\<lambda>k. pattern_log (name (RULES ! k)) (rule_count u RULES k d))
      (triggered_rules u RULES d)" and cl: "cl = cleaned_after u RULES d"
    by (simp_all add: rules_loop_acc [of u RULES "[]" "[]" d lg] rules_loop_closed)
  from p phrases_loop_logs [of u "str_lower u cl" BLOCKED_PHRASES F M cl L]
  have "L2 = L @ map phrase_log (triggered_phrases u d)"
    by (simp add: triggered_phrases_def cl)
  with r p L show ?thesis
    by (simp add: apply_guardrails_def Let_def)
qed

text \<open>
  C8. The returned text and audit record do not depend on the state of the logger,
  the only state the function touches: two runs on the same text, from any two logger
  states, return the same, and so does a second run made after a first one.
\<close>

theorem deterministic:
  "fst (apply_guardrails u d lg1) = fst (apply_guardrails u d lg2) \<and>
   fst (apply_guardrails u d (snd (apply_guardrails u d lg1))) = fst (apply_guardrails u d lg1)"
  by (simp only: apply_guardrails_result)

text \<open>
  A replacement without backslash is inserted as it is by \<open>re.sub\<close>; one with a
  backslash would be read as a template, which can be rejected with an error.
\<close>

definition literal_template :: "pystr \<Rightarrow> bool" where
  "literal_template repl = (92 \<notin> set repl)"

text \<open>
  C9. Every function of the model is total: the matcher, the two search loops and the
  rule loops were defined with their termination proofs, so for every text there is a
  result. It is well formed: \<open>passed\<close> says whether there is no flag, and the flags and
  the modifications are as many. No replacement of the program is a template, so the
  one step of the source that can raise, the parsing of a template, is never taken.
\<close>

theorem total_and_well_formed:
  "(\<exists>c chk lg'. apply_guardrails u d lg = ((c, chk), lg')
       \<and> passed chk = (flags chk = [])
       \<and> length (flags chk) = length (modifications_applied chk)
       \<and> length (flags chk) \<le> length RULES + length BLOCKED_PHRASES
       \<and> length lg' = length lg + length (flags chk) + 1)
   \<and> list_all (\<lambda>r. literal_template (replacement r)) RULES
   \<and> list_all (\<lambda>(phrase, repl). literal_template repl) BLOCKED_PHRASES
   \<and> literal_template [32] \<and> literal_template [10, 10]"
proof -
  note c = apply_guardrails_collapse [of u d lg]
  let ?chk = "snd (fst (apply_guardrails u d lg))"
  have p: "passed ?chk = (flags ?chk = [])"
    by (rule apply_guardrails_passed [OF c])
  have l: "length (flags ?chk) = length (modifications_applied ?chk)"
    unfolding apply_guardrails_flags [OF c] apply_guardrails_mods [OF c] by simp
  have b: "length (flags ?chk) \<le> length RULES + length BLOCKED_PHRASES"
  proof -
    have "length (triggered_rules u RULES d) \<le> length [0..<length RULES]"
      unfolding triggered_rules_def by (rule length_filter_le)
    moreover have "length (triggered_phrases u d) \<le> length (map fst BLOCKED_PHRASES)"
      unfolding triggered_phrases_def by (rule length_filter_le)
    ultimately show ?thesis
      unfolding apply_guardrails_flags [OF c] by simp
  qed
  have t: "list_all (\<lambda>r. literal_template (replacement r)) RULES"
    "list_all (\<lambda>(phrase, repl). literal_template repl) BLOCKED_PHRASES"
    "literal_template [32]" "literal_template [10, 10]"
    by (simp_all add: literal_template_def RULES_def BLOCKED_PHRASES_def ustr_def)
  have g: "length (snd (apply_guardrails u d lg)) = length lg + length (flags ?chk) + 1"
    unfolding apply_guardrails_flags [OF c] using apply_guardrails_log [of u d lg] by auto
  from c p l b g t show ?thesis
    by blast
qed

end
